theory Spec2Isabelle
  imports Complex_Main "HOL-Library.AList" "HOL-Library.Sublist"
begin

section \<open>Values of the JavaScript run time that pMap sees\<close>

text \<open>
  A JavaScript number as far as \<open>assertConcurrency\<close> looks at it: a finite value, one
  of the two infinities, or NaN.
\<close>

datatype jsnum = Num real | PosInfinity | NegInfinity | NaN

text \<open>
  The \<open>stack\<close> property of an \<open>Error\<close>: the string the engine recorded when the
  \<open>Error\<close> was constructed with the given message (its text is the engine's business:
  V8 writes \<open>Error:\<close> and the message, then one line per frame), a string the program
  stored in the property, or something that is not a string.
\<close>

datatype trace = Captured string | Own string | Missing

text \<open>
  \<open>ErrorLike = Error | { message: string } | string\<close> (aggregate-error.ts, line 1).
  An \<open>Error\<close> object is its message, its own enumerable properties (the \<open>name\<close> of
  a subclass counted among them) and its \<open>stack\<close>; a plain object is its property
  list.
\<close>

record js_error =
  message :: string
  props :: "(string \<times> string) list"
  stack :: trace

datatype ErrorLike =
    ErrorInstance js_error
  | PlainObject "(string \<times> string) list"
  | StringValue string

text \<open>What a mapper returns: a value, or the unique symbol \<open>pMapSkip\<close>.\<close>

datatype 'r out = Value 'r | pMapSkip

text \<open>
  \<open>nextItem.value\<close>: the element itself (perhaps behind a promise that fulfils), or a
  promise that rejects.
\<close>

datatype 'a item = Plain 'a | Rejecting ErrorLike

text \<open>One call of \<open>iterator.next()\<close> as the source decides it.\<close>

datatype 'a pull = Yield "'a item" | Throw ErrorLike

text \<open>What \<open>iterator.next()\<close> hands back: \<open>{done: true}\<close>, \<open>{value, done: false}\<close>, or a throw.\<close>

datatype 'a nextItem = Done | Item "'a item" | Thrown ErrorLike

text \<open>
  The first argument of pMap. A primitive has no properties to test with \<open>in\<close>; an
  object may carry \<open>Symbol.iterator\<close>, \<open>Symbol.asyncIterator\<close>, both or neither. Each
  protocol is the finite list of pulls it answers before it reports \<open>done\<close> for good.
\<close>

datatype 'a input = Primitive | Object "'a pull list option" "'a pull list option"

datatype invalid = NotIterable | MapperRequired | BadConcurrency

text \<open>
  What a call is rejected with: the error a \<open>catch\<close> block received; an
  \<open>AggregateError\<close>, given by the normalised error list it holds in \<open>_errors\<close> (its
  message is \<open>AggregateError_message\<close> of that list, below); or one of the errors of the
  input checks.
\<close>

datatype reason =
    Raised ErrorLike
  | Composite "js_error list"
  | PMapError invalid
  | TypeError invalid

datatype 'r outcome = Pending | Resolved "'r out option list" | Rejected reason

datatype impl = TS | JS

record ('a, 'r) options =
  iterable :: "'a input"
  mapper :: "('a \<Rightarrow> nat \<Rightarrow> ErrorLike + 'r out) option"
  concurrency :: jsnum
  stopOnError :: bool

section \<open>aggregate-error.ts\<close>

text \<open>
  The callback of \<open>errors.map\<close> in the constructor (lines 17 to 27): an \<open>Error\<close> is kept,
  a plain object becomes \<open>Object.assign(new Error(error.message), error)\<close>, anything
  else \<open>new Error(error)\<close>. A plain object without a \<open>message\<close> property gives the
  empty message of \<open>new Error(undefined)\<close>. \<open>Object.assign\<close> writes \<open>message\<close> and
  \<open>stack\<close> into the properties the new \<open>Error\<close> already has, which are not
  enumerable; every other property of the plain object becomes an enumerable one.
\<close>

fun normalise :: "ErrorLike \<Rightarrow> js_error" where
  "normalise (ErrorInstance e) = e"
| "normalise (PlainObject ps) =
     \<lparr>message = (case map_of ps ''message'' of Some m \<Rightarrow> m | None \<Rightarrow> ''''),
      props = filter (\<lambda>(k, x). k \<noteq> ''message'' \<and> k \<noteq> ''stack'') ps,
      stack = (case map_of ps ''stack'' of
                 Some st \<Rightarrow> Own st
               | None \<Rightarrow> Captured (case map_of ps ''message'' of Some m \<Rightarrow> m | None \<Rightarrow> ''''))\<rparr>"
| "normalise (StringValue s) = \<lparr>message = s, props = [], stack = Captured s\<rparr>"

text \<open>The message an \<open>ErrorLike\<close> carries, as the union type declares it.\<close>

fun message_of :: "ErrorLike \<Rightarrow> string" where
  "message_of (ErrorInstance e) = message e"
| "message_of (PlainObject ps) = (case map_of ps ''message'' of Some m \<Rightarrow> m | None \<Rightarrow> '''')"
| "message_of (StringValue s) = s"

text \<open>
  Arrays live in a store, so that two references to one array can be told from two
  arrays with the same elements. \<open>alloc\<close> is what \<open>map\<close> and \<open>slice\<close> do when they
  build their result.
\<close>

type_synonym 'v store = "'v list list"

definition alloc :: "'v list \<Rightarrow> 'v store \<Rightarrow> nat \<times> 'v store" where
  "alloc xs h = (length h, h @ [xs])"

definition deref :: "'v store \<Rightarrow> nat \<Rightarrow> 'v list" where
  "deref h r = (if r < length h then h ! r else [])"

text \<open>Any in-place change of the array behind one reference (\<open>push\<close>, \<open>pop\<close>, \<open>a[i] = v\<close>, \<open>length = 0\<close>).\<close>

definition mutate :: "nat \<Rightarrow> ('v list \<Rightarrow> 'v list) \<Rightarrow> 'v store \<Rightarrow> 'v store" where
  "mutate r f h = (if r < length h then h[r := f (h ! r)] else h)"

record AggregateError =
  errors_ref :: nat

text \<open>The constructor, given the reference of the argument array (lines 10 to 40).\<close>

definition AggregateError_new :: "nat \<Rightarrow> js_error store \<Rightarrow> ErrorLike store \<Rightarrow> AggregateError \<times> js_error store" where
  "AggregateError_new arg h inputs =
     (let (r, h') = alloc (map normalise (deref inputs arg)) h
      in (\<lparr>errors_ref = r\<rparr>, h'))"

text \<open>\<open>errors()\<close>: \<open>return this._errors.slice()\<close>.\<close>

definition errors_method :: "AggregateError \<Rightarrow> js_error store \<Rightarrow> nat \<times> js_error store" where
  "errors_method this h = alloc (deref h (errors_ref this)) h"

subsection \<open>The message of an AggregateError\<close>






















section \<open>pMap\<close>

subsection \<open>Input validation\<close>

text \<open>\<open>Number.isSafeInteger\<close>: an integer of magnitude at most \<open>2^53 - 1\<close>.\<close>

fun isSafeInteger :: "jsnum \<Rightarrow> bool" where
  "isSafeInteger (Num x) = (of_int \<lfloor>x\<rfloor> = x \<and> \<bar>x\<bar> \<le> 9007199254740991)"
| "isSafeInteger _ = False"

fun ge_one :: "jsnum \<Rightarrow> bool" where
  "ge_one (Num x) = (1 \<le> x)"
| "ge_one PosInfinity = True"
| "ge_one _ = False"

definition assertConcurrency :: "jsnum \<Rightarrow> bool" where
  "assertConcurrency c = ((isSafeInteger c \<or> c = PosInfinity) \<and> ge_one c)"

text \<open>
  Lines 66 to 92 of the TypeScript file: \<open>in\<close> on a primitive throws a TypeError of the
  engine, which the \<open>catch\<close> replaces by its own TypeError; the three PMapErrors pass
  through. \<open>None\<close> means the checks passed.
\<close>

definition validate_ts :: "('a, 'r) options \<Rightarrow> reason option" where
  "validate_ts opts =
     (case iterable opts of
        Primitive \<Rightarrow> Some (TypeError NotIterable)
      | Object None None \<Rightarrow> Some (PMapError NotIterable)
      | Object _ _ \<Rightarrow>
          (if mapper opts = None then Some (PMapError MapperRequired)
           else if \<not> assertConcurrency (concurrency opts) then Some (PMapError BadConcurrency)
           else None))"

text \<open>
  Lines 42 to 65 of the JavaScript file: every check throws a TypeError. A primitive
  is taken here as one without iterator properties (a number, not a string).
\<close>

definition validate_js :: "('a, 'r) options \<Rightarrow> reason option" where
  "validate_js opts =
     (case iterable opts of
        Primitive \<Rightarrow> Some (TypeError NotIterable)
      | Object None None \<Rightarrow> Some (TypeError NotIterable)
      | Object _ _ \<Rightarrow>
          (if mapper opts = None then Some (TypeError MapperRequired)
           else if \<not> (((isSafeInteger (concurrency opts) \<or> concurrency opts = PosInfinity))
                       \<and> ge_one (concurrency opts))
             then Some (TypeError BadConcurrency)
           else None))"

definition validate :: "impl \<Rightarrow> ('a, 'r) options \<Rightarrow> reason option" where
  "validate v opts = (case v of TS \<Rightarrow> validate_ts opts | JS \<Rightarrow> validate_js opts)"

text \<open>
  Which protocol the iterator comes from. TypeScript (lines 102 to 105) asks for
  \<open>Symbol.asyncIterator\<close> first; JavaScript (lines 75 to 78) takes \<open>Symbol.iterator\<close>
  whenever it is defined.
\<close>

fun get_iterator :: "impl \<Rightarrow> 'a input \<Rightarrow> 'a pull list" where
  "get_iterator TS (Object sy (Some asy)) = asy"
| "get_iterator TS (Object (Some sy) None) = sy"
| "get_iterator JS (Object (Some sy) asy) = sy"
| "get_iterator JS (Object None (Some asy)) = asy"
| "get_iterator _ _ = []"

subsection \<open>The state of one call\<close>

text \<open>
  Who is waiting for a call of \<open>next()\<close>: iteration \<open>index\<close> of the loop that starts
  the runners (lines 213 to 224), the \<open>try\<close> block of a task (line 183), or its
  \<open>catch\<close> block (line 197).
\<close>

datatype caller = FromRunner nat | FromTry | FromCatch

text \<open>
  A detached task (lines 166 to 203) is suspended either at \<open>await nextItem.value\<close> or
  at \<open>await mapper(element, index)\<close>; in the second case the mapper has been invoked
  and what its promise will settle to is fixed.
\<close>

datatype ('a, 'r) task = AwaitValue "'a item" | AwaitMapper "ErrorLike + 'r out"

text \<open>
  The loop that starts the runners: waiting for the \<open>next()\<close> of iteration \<open>index\<close>,
  woken up after it, or left.
\<close>

datatype runner = Awaiting nat | Resumed nat | Finished

text \<open>
  The variables of the closure (lines 94 to 105; the \<open>Map\<close> as the list of its
  entries, one per key), then what the run time holds: the
  state of the returned promise, the calls of \<open>iterator.next()\<close> whose \<open>await\<close> has not
  resumed yet (in the order they were made: a synchronous iterator and an async
  generator answer in that order), the calls of \<open>next()\<close> whose promise is rejected and
  whose caller has not resumed yet (in the order they were rejected), the tasks in
  flight by their \<open>index\<close>, and the runner loop. The last two fields are observations
  no branch reads: every error a \<open>catch\<close> block received, and every \<open>index\<close> the
  mapper was invoked with, both in order of time.
\<close>

record ('a, 'r) state =
  result :: "'r out option list"
  errors :: "ErrorLike list"
  skippedIndexesMap :: "(nat \<times> 'r out) list"
  isRejected :: bool
  isResolved :: bool
  isIterableDone :: bool
  resolvingCount :: int
  currentIndex :: nat
  iterator :: "'a pull list"
  settled :: "'r outcome"
  pulls :: "('a nextItem \<times> caller) list"
  thrown :: "(ErrorLike \<times> caller) list"
  tasks :: "(nat \<times> ('a, 'r) task) list"
  runner :: runner
  caught :: "ErrorLike list"
  invoked :: "nat list"

definition initial :: "'a pull list \<Rightarrow> ('a, 'r) state" where
  "initial it =
     \<lparr>result = [], errors = [], skippedIndexesMap = [],
      isRejected = False, isResolved = False, isIterableDone = False,
      resolvingCount = 0, currentIndex = 0, iterator = it,
      settled = Pending, pulls = [], thrown = [], tasks = [], runner = Finished,
      caught = [], invoked = []\<rparr>"

text \<open>Settling a promise a second time does nothing.\<close>

definition settle :: "'r outcome \<Rightarrow> ('a, 'r) state \<Rightarrow> ('a, 'r) state" where
  "settle out s = (if settled s = Pending then s\<lparr>settled := out\<rparr> else s)"

text \<open>\<open>reject\<close>, lines 110 to 114.\<close>

definition reject :: "reason \<Rightarrow> ('a, 'r) state \<Rightarrow> ('a, 'r) state" where
  "reject r s = settle (Rejected r) (s\<lparr>isRejected := True, isResolved := True\<rparr>)"

text \<open>\<open>result[index] = value\<close>: writing past the end leaves holes.\<close>

definition array_set :: "'v option list \<Rightarrow> nat \<Rightarrow> 'v \<Rightarrow> 'v option list" where
  "array_set xs i v =
     (if i < length xs then xs[i := Some v]
      else xs @ replicate (i - length xs) None @ [Some v])"

text \<open>Lines 145 to 154: the entries of \<open>result\<close> whose index is not staged as skipped.\<close>

definition pureResult :: "(nat \<times> 'r out) list \<Rightarrow> 'r out option list \<Rightarrow> 'r out option list" where
  "pureResult skipped res =
     map snd (filter (\<lambda>(index, val). map_of skipped index \<noteq> Some pMapSkip) (enumerate 0 res))"

fun iterator_next :: "'a pull list \<Rightarrow> 'a nextItem \<times> 'a pull list" where
  "iterator_next [] = (Done, [])"
| "iterator_next (Yield v # rest) = (Item v, rest)"
| "iterator_next (Throw e # rest) = (Thrown e, rest)"

text \<open>The caller's \<open>await next()\<close> came back without a throw; only the runner loop goes on from there.\<close>

definition returned :: "caller \<Rightarrow> ('a, 'r) state \<Rightarrow> ('a, 'r) state" where
  "returned c s = (case c of FromRunner i \<Rightarrow> s\<lparr>runner := Resumed i\<rparr> | _ \<Rightarrow> s)"

text \<open>\<open>next()\<close> up to its \<open>await iterator.next()\<close> (lines 117 to 119).\<close>

definition next_call :: "caller \<Rightarrow> ('a, 'r) state \<Rightarrow> ('a, 'r) state" where
  "next_call c s =
     (if isResolved s then returned c s
      else (let (nextItem, rest) = iterator_next (iterator s)
            in s\<lparr>iterator := rest, pulls := pulls s @ [(nextItem, c)]\<rparr>))"

text \<open>The shutdown of lines 132 to 157.\<close>

definition finalize :: "('a, 'r) options \<Rightarrow> ('a, 'r) state \<Rightarrow> ('a, 'r) state" where
  "finalize opts s =
     (if resolvingCount s = 0 \<and> \<not> isResolved s then
        (if \<not> stopOnError opts \<and> errors s \<noteq> [] then
           reject (Composite (map normalise (errors s))) s
         else
           (let s1 = s\<lparr>isResolved := True\<rparr>
            in if length (skippedIndexesMap s1) = 0 then settle (Resolved (result s1)) s1
               else settle (Resolved (pureResult (skippedIndexesMap s1) (result s1))) s1))
      else s)"

text \<open>
  The \<open>catch\<close> block of a task, lines 184 to 202. Its inner \<open>next()\<close> is awaited by
  \<open>FromCatch\<close>.
\<close>

definition catch_block :: "('a, 'r) options \<Rightarrow> ErrorLike \<Rightarrow> ('a, 'r) state \<Rightarrow> ('a, 'r) state" where
  "catch_block opts e s0 =
     (let s = s0\<lparr>caught := caught s0 @ [e]\<rparr>
      in if stopOnError opts then reject (Raised e) s
         else next_call FromCatch
                (s\<lparr>errors := errors s @ [e], resolvingCount := resolvingCount s - 1\<rparr>))"

text \<open>
  The rejection of \<open>next()\<close> arrives at whoever awaited it: the \<open>catch\<close> of the runner
  loop (line 217), of the task (line 184) or the inner one (line 198).
\<close>

definition next_threw :: "('a, 'r) options \<Rightarrow> caller \<Rightarrow> ErrorLike \<Rightarrow> ('a, 'r) state \<Rightarrow> ('a, 'r) state" where
  "next_threw opts c e s =
     (case c of
        FromRunner i \<Rightarrow> (reject (Raised e) (s\<lparr>caught := caught s @ [e]\<rparr>))\<lparr>runner := Finished\<rparr>
      | FromTry \<Rightarrow> catch_block opts e s
      | FromCatch \<Rightarrow> reject (Raised e) (s\<lparr>caught := caught s @ [e]\<rparr>))"

text \<open>
  The detached task starts and runs to its first \<open>await\<close>. The JavaScript file tests
  \<open>isResolved\<close> before that \<open>await\<close> (line 144), the TypeScript file after it (line 170).
\<close>

definition spawn :: "impl \<Rightarrow> nat \<Rightarrow> 'a item \<Rightarrow> ('a, 'r) state \<Rightarrow> ('a, 'r) state" where
  "spawn v index val s =
     (if v = JS \<and> isResolved s then s
      else s\<lparr>tasks := tasks s @ [(index, AwaitValue val)]\<rparr>)"

text \<open>
  \<open>next()\<close> from line 121 on, with the item its \<open>await\<close> delivered. When the \<open>await\<close>
  throws, \<open>next()\<close> ends there and its promise is rejected; the caller, suspended at
  its own \<open>await next()\<close>, resumes in a later job of the event loop.
\<close>

definition next_resume :: "impl \<Rightarrow> ('a, 'r) options \<Rightarrow> 'a nextItem \<Rightarrow> caller \<Rightarrow> ('a, 'r) state \<Rightarrow> ('a, 'r) state" where
  "next_resume v opts nextItem c s0 =
     (case nextItem of
        Thrown e \<Rightarrow> s0\<lparr>thrown := thrown s0 @ [(e, c)]\<rparr>
      | Done \<Rightarrow>
          (let index = currentIndex s0;
               s = s0\<lparr>currentIndex := currentIndex s0 + 1, isIterableDone := True\<rparr>
           in returned c (finalize opts s))
      | Item val \<Rightarrow>
          (let index = currentIndex s0;
               s = s0\<lparr>currentIndex := currentIndex s0 + 1,
                       resolvingCount := resolvingCount s0 + 1\<rparr>
           in returned c (spawn v index val s)))"

definition call_mapper :: "('a, 'r) options \<Rightarrow> 'a \<Rightarrow> nat \<Rightarrow> ErrorLike + 'r out" where
  "call_mapper opts element index =
     (case mapper opts of
        Some f \<Rightarrow> f element index
      | None \<Rightarrow> Inl (ErrorInstance \<lparr>message = ''mapper is not a function'', props = [],
                                     stack = Captured ''mapper is not a function''\<rparr>))"

definition remove_task :: "nat \<Rightarrow> ('a, 'r) state \<Rightarrow> ('a, 'r) state" where
  "remove_task index s = s\<lparr>tasks := filter (\<lambda>(i, t). i \<noteq> index) (tasks s)\<rparr>"

text \<open>The task after \<open>await nextItem.value\<close> (lines 168 to 172).\<close>

definition value_resume :: "impl \<Rightarrow> ('a, 'r) options \<Rightarrow> nat \<Rightarrow> 'a item \<Rightarrow> ('a, 'r) state \<Rightarrow> ('a, 'r) state" where
  "value_resume v opts index val s =
     (case val of
        Rejecting e \<Rightarrow> catch_block opts e (remove_task index s)
      | Plain element \<Rightarrow>
          (if v = TS \<and> isResolved s then remove_task index s
           else s\<lparr>tasks := map (\<lambda>(i, t). if i = index
                                 then (i, AwaitMapper (call_mapper opts element index))
                                 else (i, t)) (tasks s),
                   invoked := invoked s @ [index]\<rparr>))"

text \<open>The task after \<open>await mapper(element, index)\<close> (lines 172 to 183).\<close>

definition mapper_resume :: "('a, 'r) options \<Rightarrow> nat \<Rightarrow> ErrorLike + 'r out \<Rightarrow> ('a, 'r) state \<Rightarrow> ('a, 'r) state" where
  "mapper_resume opts index res s0 =
     (let s = remove_task index s0
      in case res of
           Inl e \<Rightarrow> catch_block opts e s
         | Inr val \<Rightarrow>
             (let s1 = (if val = pMapSkip
                        then s\<lparr>skippedIndexesMap := AList.update index val (skippedIndexesMap s)\<rparr>
                        else s);
                  s2 = s1\<lparr>result := array_set (result s1) index val,
                          resolvingCount := resolvingCount s1 - 1\<rparr>
              in next_call FromTry s2))"

text \<open>\<open>index < concurrency\<close> in the loop header.\<close>

fun below :: "nat \<Rightarrow> jsnum \<Rightarrow> bool" where
  "below i (Num x) = (real i < x)"
| "below i PosInfinity = True"
| "below i _ = False"

text \<open>One pass through the loop header and the call of line 216.\<close>

definition runner_iter :: "('a, 'r) options \<Rightarrow> nat \<Rightarrow> ('a, 'r) state \<Rightarrow> ('a, 'r) state" where
  "runner_iter opts index s =
     (if below index (concurrency opts)
      then next_call (FromRunner index) (s\<lparr>runner := Awaiting index\<rparr>)
      else s\<lparr>runner := Finished\<rparr>)"

text \<open>The loop after \<open>await next()\<close>: line 222, then \<open>index++\<close>.\<close>

definition runner_resume :: "('a, 'r) options \<Rightarrow> nat \<Rightarrow> ('a, 'r) state \<Rightarrow> ('a, 'r) state" where
  "runner_resume opts index s =
     (if isIterableDone s \<or> isRejected s then s\<lparr>runner := Finished\<rparr>
      else runner_iter opts (index + 1) s)"

subsection \<open>Scheduling\<close>

text \<open>
  What the event loop may do next: resume the oldest pending \<open>await iterator.next()\<close>,
  resume the caller of the oldest rejected \<open>next()\<close> in its \<open>catch\<close>, wake the runner
  loop, let the element of task \<open>index\<close> arrive, or let its mapper settle. An event
  that has nothing to resume is not enabled. The pulls resume oldest first, which is
  the order in which a synchronous iterator and an async generator answer; a source
  that answers in another order is the subject of \<open>run_unordered\<close> below.
\<close>

datatype event = EvPull | EvThrow | EvRunner | EvValue nat | EvMapper nat

definition step :: "impl \<Rightarrow> ('a, 'r) options \<Rightarrow> ('a, 'r) state \<Rightarrow> event \<Rightarrow> ('a, 'r) state option" where
  "step v opts s ev =
     (case ev of
        EvPull \<Rightarrow>
          (case pulls s of
             [] \<Rightarrow> None
           | (nextItem, c) # rest \<Rightarrow> Some (next_resume v opts nextItem c (s\<lparr>pulls := rest\<rparr>)))
      | EvThrow \<Rightarrow>
          (case thrown s of
             [] \<Rightarrow> None
           | (e, c) # rest \<Rightarrow> Some (next_threw opts c e (s\<lparr>thrown := rest\<rparr>)))
      | EvRunner \<Rightarrow>
          (case runner s of
             Resumed i \<Rightarrow> Some (runner_resume opts i s)
           | _ \<Rightarrow> None)
      | EvValue index \<Rightarrow>
          (case map_of (tasks s) index of
             Some (AwaitValue val) \<Rightarrow> Some (value_resume v opts index val s)
           | _ \<Rightarrow> None)
      | EvMapper index \<Rightarrow>
          (case map_of (tasks s) index of
             Some (AwaitMapper res) \<Rightarrow> Some (mapper_resume opts index res s)
           | _ \<Rightarrow> None))"

fun run :: "impl \<Rightarrow> ('a, 'r) options \<Rightarrow> ('a, 'r) state \<Rightarrow> event list \<Rightarrow> ('a, 'r) state option" where
  "run v opts s [] = Some s"
| "run v opts s (ev # evs) =
     (case step v opts s ev of None \<Rightarrow> None | Some s' \<Rightarrow> run v opts s' evs)"

text \<open>
  The call itself: the executor of line 64 runs the checks, creates the variables and
  enters the runner loop, all before anything is awaited. A throw of the executor
  rejects the promise and nothing else exists.
\<close>

definition pMap :: "impl \<Rightarrow> ('a, 'r) options \<Rightarrow> ('a, 'r) state" where
  "pMap v opts =
     (case validate v opts of
        Some r \<Rightarrow> (initial [])\<lparr>settled := Rejected r\<rparr>
      | None \<Rightarrow> runner_iter opts 0 (initial (get_iterator v (iterable opts))))"

text \<open>Nothing is left to resume.\<close>

definition quiescent :: "('a, 'r) state \<Rightarrow> bool" where
  "quiescent s =
     (pulls s = [] \<and> thrown s = [] \<and> tasks s = [] \<and>
      (case runner s of Resumed i \<Rightarrow> False | _ \<Rightarrow> True))"

text \<open>The failures of the input checks: \<open>PMapError\<close> and the \<open>TypeError\<close> of the executor.\<close>

fun is_InvalidInput :: "reason \<Rightarrow> bool" where
  "is_InvalidInput (PMapError k) = True"
| "is_InvalidInput (TypeError k) = True"
| "is_InvalidInput _ = False"

text \<open>A call with \<open>concurrency: 1.5\<close>, as in the test "enforce number in options.concurrency".\<close>

definition bad_call :: "(nat, nat) options" where
  "bad_call = \<lparr>iterable = Object (Some [Yield (Plain 7)]) None,
               mapper = Some (\<lambda>x i. Inr (Value x)), concurrency = Num (3/2), stopOnError = True\<rparr>"

text \<open>
  The failure an event hands to a \<open>catch\<close> block, if any: the error of the rejected
  \<open>next()\<close> the caller resumes with, the rejection of the element a task awaits, or
  the failure of its mapper.
\<close>

definition delivered :: "('a, 'r) state \<Rightarrow> event \<Rightarrow> ErrorLike option" where
  "delivered s ev =
     (case ev of
        EvThrow \<Rightarrow> (case thrown s of [] \<Rightarrow> None | (e, c) # rest \<Rightarrow> Some e)
      | EvValue index \<Rightarrow>
          (case map_of (tasks s) index of
             Some (AwaitValue (Rejecting e)) \<Rightarrow> Some e
           | _ \<Rightarrow> None)
      | EvMapper index \<Rightarrow>
          (case map_of (tasks s) index of
             Some (AwaitMapper (Inl e)) \<Rightarrow> Some e
           | _ \<Rightarrow> None)
      | _ \<Rightarrow> None)"

text \<open>The failures a schedule delivers, each with the event that delivers it, in order of time.\<close>

fun failures :: "impl \<Rightarrow> ('a, 'r) options \<Rightarrow> ('a, 'r) state \<Rightarrow> event list \<Rightarrow> (event \<times> ErrorLike) list" where
  "failures v opts s [] = []"
| "failures v opts s (ev # evs) =
     (case step v opts s ev of
        None \<Rightarrow> []
      | Some s' \<Rightarrow>
          (case delivered s ev of Some e \<Rightarrow> [(ev, e)] | None \<Rightarrow> []) @ failures v opts s' evs)"

text \<open>Behind a \<open>done\<close> every answer is \<open>done\<close>.\<close>

fun done_tail :: "'a nextItem list \<Rightarrow> bool" where
  "done_tail [] = True"
| "done_tail (x # r) = (if x = Done then (\<forall>y\<in>set r. y = Done) else done_tail r)"

text \<open>The promise is rejected.\<close>

fun is_Rejected :: "'r outcome \<Rightarrow> bool" where
  "is_Rejected (Rejected r) = True"
| "is_Rejected _ = False"

text \<open>
  What holds in every state a call with valid arguments can reach. The promise is
  pending exactly as long as \<open>isResolved\<close> is unset, and a rejected promise has
  \<open>isRejected\<close> set; a call is resolved only after the source reported \<open>done\<close> or a
  \<open>reject\<close>; the tasks in flight have different indices, all below \<open>currentIndex\<close>; a
  pending pull is \<open>done\<close> only when the source is used up, and behind a \<open>done\<close> all are;
  as long as no \<open>catch\<close> block has run, \<open>resolvingCount\<close> counts the tasks in flight
  and \<open>errors\<close> is empty; once one has run the call is resolved or an error is
  logged; a call resolved without \<open>reject\<close> has no task in flight; \<open>reject\<close> is only
  called after a \<open>catch\<close> block has run.
\<close>

definition wf_state :: "('a, 'r) options \<Rightarrow> ('a, 'r) state \<Rightarrow> bool" where
  "wf_state opts s =
     ((settled s = Pending) = (\<not> isResolved s) \<and>
      (is_Rejected (settled s) \<longrightarrow> isRejected s) \<and>
      (isResolved s \<longrightarrow> isIterableDone s \<or> isRejected s) \<and>
      distinct (map fst (tasks s)) \<and>
      (\<forall>i\<in>set (map fst (tasks s)). i < currentIndex s) \<and>
      (iterator s \<noteq> [] \<longrightarrow> Done \<notin> set (map fst (pulls s))) \<and>
      (isIterableDone s \<longrightarrow> iterator s = [] \<and> (\<forall>x\<in>set (map fst (pulls s)). x = Done)) \<and>
      done_tail (map fst (pulls s)) \<and>
      (caught s = [] \<longrightarrow> resolvingCount s = int (length (tasks s)) \<and> errors s = []) \<and>
      (caught s \<noteq> [] \<longrightarrow> isResolved s \<or> (\<not> stopOnError opts \<and> errors s \<noteq> [])) \<and>
      (isResolved s \<and> \<not> isRejected s \<longrightarrow> tasks s = []) \<and>
      (isRejected s \<longrightarrow> caught s \<noteq> []))"

text \<open>A pending \<open>next()\<close> of the runner loop, as opposed to one a task awaits.\<close>

fun is_runner_caller :: "caller \<Rightarrow> bool" where
  "is_runner_caller (FromRunner n) = True"
| "is_runner_caller _ = False"

text \<open>
  The strands the runner loop has started and that are still alive: a task in flight,
  or the \<open>next()\<close> a finished task is waiting for, pending or rejected.
\<close>

definition strands :: "('a, 'r) state \<Rightarrow> nat" where
  "strands s =
     length (tasks s) + length (filter (\<lambda>(x, c). \<not> is_runner_caller c) (pulls s)) +
     length (filter (\<lambda>(e, c). \<not> is_runner_caller c) (thrown s))"

text \<open>The mapper invocations that have started and not settled.\<close>

definition in_flight :: "('a, 'r) state \<Rightarrow> nat" where
  "in_flight s =
     length (filter (\<lambda>(i, t). case t of AwaitMapper r \<Rightarrow> True | AwaitValue x \<Rightarrow> False) (tasks s))"

text \<open>\<open>n <= concurrency\<close>.\<close>

fun at_most :: "nat \<Rightarrow> jsnum \<Rightarrow> bool" where
  "at_most n (Num x) = (real n \<le> x)"
| "at_most n PosInfinity = True"
| "at_most n _ = False"

text \<open>
  The count behind the concurrency limit: the one \<open>next()\<close> the runner loop waits for
  is its own, and the live strands number at most the iterations the loop has
  finished, which the loop header keeps below \<open>concurrency\<close>.
\<close>

definition window :: "('a, 'r) options \<Rightarrow> ('a, 'r) state \<Rightarrow> bool" where
  "window opts s =
     (map snd (filter (\<lambda>(x, c). is_runner_caller c) (pulls s)) @ map snd (filter (\<lambda>(e, c). is_runner_caller c) (thrown s)) = (case runner s of Awaiting n \<Rightarrow> [FromRunner n] | _ \<Rightarrow> []) \<and>
      (case runner s of Awaiting n \<Rightarrow> strands s \<le> n \<and> below n (concurrency opts) | Resumed n \<Rightarrow> strands s \<le> Suc n \<and> below n (concurrency opts) | Finished \<Rightarrow> at_most (strands s) (concurrency opts)))"



text \<open>
  How much is left to do, counted generously: every element not yet pulled, every
  pending or rejected \<open>next()\<close>, every task and the runner loop weigh more than
  whatever they can leave behind when they are resumed.
\<close>

fun thrown_weight :: "ErrorLike \<times> caller \<Rightarrow> nat" where
  "thrown_weight (e, FromTry) = 2"
| "thrown_weight (e, c) = 1"

fun pull_weight :: "'a nextItem \<times> caller \<Rightarrow> nat" where
  "pull_weight (Done, FromRunner n) = 2"
| "pull_weight (Done, c) = 1"
| "pull_weight (Thrown e, FromTry) = 3"
| "pull_weight (Thrown e, c) = 2"
| "pull_weight (Item val, FromRunner n) = 7"
| "pull_weight (Item val, c) = 4"

fun task_weight :: "nat \<times> ('a, 'r) task \<Rightarrow> nat" where
  "task_weight (i, AwaitValue val) = 3"
| "task_weight (i, AwaitMapper res) = 2"

definition runner_weight :: "('a, 'r) state \<Rightarrow> nat" where
  "runner_weight s =
     (case runner s of
        Resumed n \<Rightarrow> if isIterableDone s \<or> isRejected s then 1 else 3
      | _ \<Rightarrow> 0)"

definition work_left :: "('a, 'r) state \<Rightarrow> nat" where
  "work_left s =
     8 * length (iterator s) + sum_list (map pull_weight (pulls s)) +
     sum_list (map thrown_weight (thrown s)) +
     sum_list (map task_weight (tasks s)) + runner_weight s"





text \<open>
  What the call is to resolve with: the mapper applied to each element with its
  position, in source order, the \<open>pMapSkip\<close> results dropped.
\<close>

definition mapped :: "('a, 'r) options \<Rightarrow> 'a list \<Rightarrow> (ErrorLike + 'r out) list" where
  "mapped opts xs = map (\<lambda>(index, element). call_mapper opts element index) (enumerate 0 xs)"

fun keep :: "ErrorLike + 'r out \<Rightarrow> 'r out option list" where
  "keep (Inr (Value r)) = [Some (Value r)]"
| "keep (Inr pMapSkip) = []"
| "keep (Inl e) = []"

definition expected :: "('a, 'r) options \<Rightarrow> 'a list \<Rightarrow> 'r out option list" where
  "expected opts xs = concat (map keep (mapped opts xs))"

fun returns :: "ErrorLike + 'r out \<Rightarrow> bool" where
  "returns (Inr val) = True"
| "returns (Inl e) = False"

text \<open>A source that yields the elements \<open>xs\<close>, none of them behind a rejecting promise.\<close>

definition yields :: "'a list \<Rightarrow> 'a pull list" where
  "yields xs = map (\<lambda>x. Yield (Plain x)) xs"

text \<open>What a pull of the source delivers when it is resumed.\<close>

fun to_nextItem :: "'a pull \<Rightarrow> 'a nextItem" where
  "to_nextItem (Yield val) = Item val"
| "to_nextItem (Throw e) = Thrown e"

text \<open>
  A run on the elements \<open>xs\<close> in which nothing has failed. What is still to come
  from the source, pending pulls first, are the elements from \<open>currentIndex\<close> on; a
  task in flight holds the element of its index or the mapper's result for it; the
  tasks that are through have their result at their index and are staged as skipped
  exactly when that result is \<open>pMapSkip\<close>; and a resolved call has the expected value.
\<close>

definition tidy :: "'a list \<Rightarrow> ('a, 'r) options \<Rightarrow> ('a, 'r) state \<Rightarrow> bool" where
  "tidy xs opts s =
     (filter (\<lambda>x. x \<noteq> Done) (map fst (pulls s)) @ map to_nextItem (iterator s) = map (\<lambda>x. Item (Plain x)) (drop (currentIndex s) xs) \<and>
      (\<forall>(i, u)\<in>set (tasks s). i < length xs \<and> (u = AwaitValue (Plain (xs ! i)) \<or> u = AwaitMapper (call_mapper opts (xs ! i) i))) \<and>
      (\<forall>i. i < currentIndex s \<and> i < length xs \<and> i \<notin> fst ` set (tasks s) \<longrightarrow> i < length (result s) \<and> map_option Inr (result s ! i) = Some (call_mapper opts (xs ! i) i)) \<and>
      length (result s) \<le> length xs \<and>
      (\<forall>i. (map_of (skippedIndexesMap s) i = Some pMapSkip) = (i < currentIndex s \<and> i < length xs \<and> i \<notin> fst ` set (tasks s) \<and> call_mapper opts (xs ! i) i = Inr pMapSkip)) \<and>
      caught s = [] \<and>
      (\<forall>ys. settled s = Resolved ys \<longrightarrow> ys = expected opts xs) \<and>
      thrown s = [])"

text \<open>A promise that is still pending has something left that can settle it.\<close>

definition alive :: "('a, 'r) state \<Rightarrow> bool" where
  "alive s = (settled s = Pending \<longrightarrow> tasks s \<noteq> [] \<or> pulls s \<noteq> [])"

text \<open>
  An async iterator written by hand may settle the promises of its pending \<open>next()\<close>
  calls in any order. Then the call at any position of the queue can be the one that
  resumes; the event \<open>EvPull\<close> is the case of position \<open>0\<close>.
\<close>

definition resume_pull_at :: "impl \<Rightarrow> ('a, 'r) options \<Rightarrow> nat \<Rightarrow> ('a, 'r) state \<Rightarrow> ('a, 'r) state option" where
  "resume_pull_at v opts k s =
     (if k < length (pulls s)
      then Some (next_resume v opts (fst (pulls s ! k)) (snd (pulls s ! k))
                   (s\<lparr>pulls := take k (pulls s) @ drop (Suc k) (pulls s)\<rparr>))
      else None)"

fun run_unordered :: "impl \<Rightarrow> ('a, 'r) options \<Rightarrow> ('a, 'r) state \<Rightarrow> (nat + event) list \<Rightarrow> ('a, 'r) state option" where
  "run_unordered v opts s [] = Some s"
| "run_unordered v opts s (Inl k # evs) =
     (case resume_pull_at v opts k s of None \<Rightarrow> None | Some s' \<Rightarrow> run_unordered v opts s' evs)"
| "run_unordered v opts s (Inr ev # evs) =
     (case step v opts s ev of None \<Rightarrow> None | Some s' \<Rightarrow> run_unordered v opts s' evs)"

text \<open>
  Three elements, the second mapped to \<open>pMapSkip\<close>, two runners: the test
  "pMapSkip - base" with a concurrency.
\<close>

definition three_items :: "(nat, nat) options" where
  "three_items =
     \<lparr>iterable = Object (Some [Yield (Plain 1), Yield (Plain 2), Yield (Plain 3)]) None,
      mapper = Some (\<lambda>x i. if x = 2 then Inr pMapSkip else Inr (Value (10 * x))),
      concurrency = Num 2, stopOnError = True\<rparr>"


text \<open>
  Two elements in flight at once; the mapper throws for the first and returns for the
  second, which settles later.
\<close>

definition late_write :: "(nat, nat) options" where
  "late_write =
     \<lparr>iterable = Object (Some [Yield (Plain 1), Yield (Plain 2)]) None,
      mapper = Some (\<lambda>x i. if x = 1 then Inl (StringValue ''foo'') else Inr (Value (10 * x))),
      concurrency = Num 2, stopOnError = True\<rparr>"

text \<open>
  A source that throws on its second pull while the mapper of the first element is
  still running and will throw, errors being collected.
\<close>

definition late_log :: "(nat, nat) options" where
  "late_log =
     \<lparr>iterable = Object (Some [Yield (Plain 1), Throw (StringValue ''source'')]) None,
      mapper = Some (\<lambda>x i. Inl (StringValue ''boom'')),
      concurrency = Num 2, stopOnError = False\<rparr>"






text \<open>
  One runner, errors collected; the mapper returns for the only element and the next
  pull throws.
\<close>

definition throw_after_success :: "(nat, nat) options" where
  "throw_after_success =
     \<lparr>iterable = Object (Some [Yield (Plain 1), Throw (StringValue ''source'')]) None,
      mapper = Some (\<lambda>x i. Inr (Value x)),
      concurrency = Num 1, stopOnError = False\<rparr>"





text \<open>
  An object that is iterable in both ways, with different elements: one from
  \<open>Symbol.iterator\<close>, another from \<open>Symbol.asyncIterator\<close>.
\<close>

definition both_protocols :: "(nat, nat) options" where
  "both_protocols =
     \<lparr>iterable = Object (Some [Yield (Plain 1)]) (Some [Yield (Plain 2)]),
      mapper = Some (\<lambda>x i. Inr (Value x)),
      concurrency = PosInfinity, stopOnError = True\<rparr>"


section \<open>Rejected input\<close>

lemma step_rejected_initial:
  "step v opts ((initial [])\<lparr>settled := Rejected r\<rparr>) ev = None"
  by (cases ev) (simp_all add: step_def initial_def)

lemma run_rejected_initial:
  "run v opts ((initial [])\<lparr>settled := Rejected r\<rparr>) evs = Some s \<Longrightarrow> evs = [] \<and> s = (initial [])\<lparr>settled := Rejected r\<rparr>"
  by (cases evs) (simp_all add: step_rejected_initial)

lemma validate_invalid:
  assumes "(\<exists>x. concurrency opts = Num x \<and> (x \<le> 0 \<or> of_int \<lfloor>x\<rfloor> \<noteq> x))
           \<or> concurrency opts = NaN \<or> concurrency opts = NegInfinity
           \<or> iterable opts = Primitive \<or> iterable opts = Object None None
           \<or> mapper opts = None"
  shows "\<exists>r. validate v opts = Some r \<and> is_InvalidInput r"
  using assms
  by (cases v; cases "iterable opts")
     (auto simp: validate_def validate_ts_def validate_js_def assertConcurrency_def
           split: option.splits)

text \<open>
  C6. A concurrency that is zero, negative or not an integer (NaN and minus infinity
  included, plus infinity not), a source that is not iterable, or a mapper that is not a
  function: the promise is rejected with one of the input errors, in both files, and
  whatever the event loop does afterwards the mapper is never invoked and the rejection
  stays.
\<close>

theorem invalid_input_rejects_without_mapper:
  assumes "(\<exists>x. concurrency opts = Num x \<and> (x \<le> 0 \<or> of_int \<lfloor>x\<rfloor> \<noteq> x))
           \<or> concurrency opts = NaN \<or> concurrency opts = NegInfinity
           \<or> iterable opts = Primitive \<or> iterable opts = Object None None
           \<or> mapper opts = None"
  shows "(\<exists>r. settled (pMap v opts) = Rejected r \<and> is_InvalidInput r) \<and>
         (\<forall>evs s. run v opts (pMap v opts) evs = Some s \<longrightarrow> invoked s = [] \<and> settled s = settled (pMap v opts))"
proof -
  from validate_invalid[OF assms] obtain r where r: "validate v opts = Some r" "is_InvalidInput r"
    by blast
  then have p: "pMap v opts = (initial [])\<lparr>settled := Rejected r\<rparr>"
    by (simp add: pMap_def)
  have "settled (pMap v opts) = Rejected r" by (simp add: p)
  moreover have "\<And>evs s. run v opts (pMap v opts) evs = Some s \<Longrightarrow> invoked s = [] \<and> settled s = settled (pMap v opts)"
    unfolding p by (drule run_rejected_initial) (simp add: initial_def)
  ultimately show ?thesis using r(2) by blast
qed

theorem invalid_input_rejects_without_mapper_witness:
  "settled (pMap TS bad_call) = Rejected (PMapError BadConcurrency) \<and>
   run TS bad_call (pMap TS bad_call) [] = Some (pMap TS bad_call) \<and>
   invoked (pMap TS bad_call) = []"
proof -
  have h: "\<exists>x. concurrency bad_call = Num x \<and> (x \<le> 0 \<or> of_int \<lfloor>x\<rfloor> \<noteq> x)"
    unfolding bad_call_def by (intro exI[of _ "3/2"]) simp
  have "settled (pMap TS bad_call) = Rejected (PMapError BadConcurrency)"
    by (simp add: pMap_def validate_def validate_ts_def bad_call_def assertConcurrency_def)
  moreover have "run TS bad_call (pMap TS bad_call) [] = Some (pMap TS bad_call)"
    by simp
  ultimately show ?thesis
    using invalid_input_rejects_without_mapper[of bad_call TS] h by blast
qed

section \<open>What every reachable state satisfies\<close>

lemma done_tail_snoc_Done: "done_tail (q @ [Done]) = done_tail q"
  by (induction q) auto

lemma done_tail_snoc: "Done \<notin> set q \<Longrightarrow> done_tail (q @ [x])"
  by (induction q) auto

lemma done_tail_Cons: "done_tail (x # q) \<Longrightarrow> done_tail q"
  by (cases q) (auto split: if_splits)

lemma done_tail_all_Done: "\<forall>y\<in>set q. fst y = Done \<Longrightarrow> done_tail (map fst q)"
  by (cases q) auto

lemma done_tail_next:
  "done_tail q \<Longrightarrow> (it \<noteq> [] \<longrightarrow> Done \<notin> set q) \<Longrightarrow> done_tail (q @ [fst (iterator_next it)])"
  by (cases it rule: iterator_next.cases) (simp_all add: done_tail_snoc_Done done_tail_snoc)

lemma tl_nonempty: "tl xs \<noteq> [] \<Longrightarrow> xs \<noteq> []"
  by auto

lemma fst_retag:
  "map fst (map (\<lambda>(i, t). if i = k then (i, X) else (i, t)) ts) = map fst ts"
  by (induction ts) auto

lemma fst_retag_comp:
  "fst \<circ> (\<lambda>(i, t). if i = k then (i, X) else (i, t)) = fst"
  by (rule ext) (simp add: split_beta)

lemma length_drop_key:
  "distinct (map fst ts) \<Longrightarrow> (k, t) \<in> set ts \<Longrightarrow>
     Suc (length (filter (\<lambda>(i, t). i \<noteq> k) ts)) = length ts"
proof (induction ts)
  case Nil
  then show ?case by simp
next
  case (Cons a ts)
  obtain i u where a: "a = (i, u)" by (cases a)
  show ?case
  proof (cases "i = k")
    case True
    with Cons.prems a have "k \<notin> fst ` set ts" by auto
    then have "filter (\<lambda>(i, t). i \<noteq> k) ts = ts"
      by (intro filter_True) force
    with True a show ?thesis by simp
  next
    case False
    with Cons a show ?thesis by auto
  qed
qed

lemma drop_key_length:
  "distinct (map fst ts) \<Longrightarrow> (k, t) \<in> set ts \<Longrightarrow>
     int (length (filter (\<lambda>(i, t). i \<noteq> k) ts)) = int (length ts) - 1"
  using length_drop_key[of ts k t] by simp

lemma step_elims:
  assumes "step v opts s ev = Some s'"
  obtains
    (Pull) x c rest where "ev = EvPull" "pulls s = (x, c) # rest"
      "s' = next_resume v opts x c (s\<lparr>pulls := rest\<rparr>)"
  | (Thr) e c rest where "ev = EvThrow" "thrown s = (e, c) # rest"
      "s' = next_threw opts c e (s\<lparr>thrown := rest\<rparr>)"
  | (Runner) i where "ev = EvRunner" "runner s = Resumed i" "s' = runner_resume opts i s"
  | (Val) index val where "ev = EvValue index" "map_of (tasks s) index = Some (AwaitValue val)"
      "s' = value_resume v opts index val s"
  | (Map) index res where "ev = EvMapper index" "map_of (tasks s) index = Some (AwaitMapper res)"
      "s' = mapper_resume opts index res s"
  using assms
  by (cases ev) (auto simp: step_def split: list.splits runner.splits option.splits task.splits)

lemmas evops = next_resume_def next_threw_def value_resume_def mapper_resume_def
  runner_iter_def runner_resume_def

lemma snd_iterator_next: "snd (iterator_next it) = tl it"
  by (cases it rule: iterator_next.cases) simp_all

lemma fst_iterator_next_Done:
  "(fst (iterator_next it) = Done) = (it = [])"
  "(Done = fst (iterator_next it)) = (it = [])"
  by (cases it rule: iterator_next.cases; simp)+

lemma settle_fields:
  "result (settle out s) = result s"
  "errors (settle out s) = errors s"
  "skippedIndexesMap (settle out s) = skippedIndexesMap s"
  "isRejected (settle out s) = isRejected s"
  "isResolved (settle out s) = isResolved s"
  "isIterableDone (settle out s) = isIterableDone s"
  "resolvingCount (settle out s) = resolvingCount s"
  "currentIndex (settle out s) = currentIndex s"
  "iterator (settle out s) = iterator s"
  "settled (settle out s) = (if settled s = Pending then out else settled s)"
  "pulls (settle out s) = pulls s"
  "thrown (settle out s) = thrown s"
  "tasks (settle out s) = tasks s"
  "runner (settle out s) = runner s"
  "caught (settle out s) = caught s"
  "invoked (settle out s) = invoked s"
  by (simp_all add: settle_def)

lemma reject_fields:
  "result (reject r s) = result s"
  "errors (reject r s) = errors s"
  "skippedIndexesMap (reject r s) = skippedIndexesMap s"
  "isRejected (reject r s) = True"
  "isResolved (reject r s) = True"
  "isIterableDone (reject r s) = isIterableDone s"
  "resolvingCount (reject r s) = resolvingCount s"
  "currentIndex (reject r s) = currentIndex s"
  "iterator (reject r s) = iterator s"
  "settled (reject r s) = (if settled s = Pending then Rejected r else settled s)"
  "pulls (reject r s) = pulls s"
  "thrown (reject r s) = thrown s"
  "tasks (reject r s) = tasks s"
  "runner (reject r s) = runner s"
  "caught (reject r s) = caught s"
  "invoked (reject r s) = invoked s"
  by (simp_all add: reject_def settle_def)

lemma returned_fields:
  "result (returned c s) = result s"
  "errors (returned c s) = errors s"
  "skippedIndexesMap (returned c s) = skippedIndexesMap s"
  "isRejected (returned c s) = isRejected s"
  "isResolved (returned c s) = isResolved s"
  "isIterableDone (returned c s) = isIterableDone s"
  "resolvingCount (returned c s) = resolvingCount s"
  "currentIndex (returned c s) = currentIndex s"
  "iterator (returned c s) = iterator s"
  "settled (returned c s) = settled s"
  "pulls (returned c s) = pulls s"
  "thrown (returned c s) = thrown s"
  "tasks (returned c s) = tasks s"
  "runner (returned c s) = (case c of FromRunner i \<Rightarrow> Resumed i | _ \<Rightarrow> runner s)"
  "caught (returned c s) = caught s"
  "invoked (returned c s) = invoked s"
  by (simp_all add: returned_def split: caller.splits)

lemma next_call_fields:
  "result (next_call c s) = result s"
  "errors (next_call c s) = errors s"
  "skippedIndexesMap (next_call c s) = skippedIndexesMap s"
  "isRejected (next_call c s) = isRejected s"
  "isResolved (next_call c s) = isResolved s"
  "isIterableDone (next_call c s) = isIterableDone s"
  "resolvingCount (next_call c s) = resolvingCount s"
  "currentIndex (next_call c s) = currentIndex s"
  "iterator (next_call c s) = (if isResolved s then iterator s else tl (iterator s))"
  "settled (next_call c s) = settled s"
  "pulls (next_call c s) = (if isResolved s then pulls s else pulls s @ [(fst (iterator_next (iterator s)), c)])"
  "thrown (next_call c s) = thrown s"
  "tasks (next_call c s) = tasks s"
  "runner (next_call c s) = (if isResolved s then (case c of FromRunner i \<Rightarrow> Resumed i | _ \<Rightarrow> runner s) else runner s)"
  "caught (next_call c s) = caught s"
  "invoked (next_call c s) = invoked s"
  by (simp_all add: next_call_def returned_fields split_beta snd_iterator_next)

lemma finalize_fields:
  "result (finalize opts s) = result s"
  "errors (finalize opts s) = errors s"
  "skippedIndexesMap (finalize opts s) = skippedIndexesMap s"
  "isRejected (finalize opts s) = (isRejected s \<or> (resolvingCount s = 0 \<and> \<not> isResolved s \<and> \<not> stopOnError opts \<and> errors s \<noteq> []))"
  "isResolved (finalize opts s) = (isResolved s \<or> resolvingCount s = 0)"
  "isIterableDone (finalize opts s) = isIterableDone s"
  "resolvingCount (finalize opts s) = resolvingCount s"
  "currentIndex (finalize opts s) = currentIndex s"
  "iterator (finalize opts s) = iterator s"
  "settled (finalize opts s) = (if resolvingCount s = 0 \<and> \<not> isResolved s \<and> settled s = Pending
        then (if \<not> stopOnError opts \<and> errors s \<noteq> [] then Rejected (Composite (map normalise (errors s)))
              else Resolved (if length (skippedIndexesMap s) = 0 then result s
                             else pureResult (skippedIndexesMap s) (result s)))
        else settled s)"
  "pulls (finalize opts s) = pulls s"
  "thrown (finalize opts s) = thrown s"
  "tasks (finalize opts s) = tasks s"
  "runner (finalize opts s) = runner s"
  "caught (finalize opts s) = caught s"
  "invoked (finalize opts s) = invoked s"
  by (auto simp: finalize_def reject_fields settle_fields Let_def)

lemma catch_block_fields:
  "result (catch_block opts e s) = result s"
  "errors (catch_block opts e s) = (if stopOnError opts then errors s else errors s @ [e])"
  "skippedIndexesMap (catch_block opts e s) = skippedIndexesMap s"
  "isRejected (catch_block opts e s) = (isRejected s \<or> stopOnError opts)"
  "isResolved (catch_block opts e s) = (isResolved s \<or> stopOnError opts)"
  "isIterableDone (catch_block opts e s) = isIterableDone s"
  "resolvingCount (catch_block opts e s) = (if stopOnError opts then resolvingCount s else resolvingCount s - 1)"
  "currentIndex (catch_block opts e s) = currentIndex s"
  "iterator (catch_block opts e s) = (if stopOnError opts \<or> isResolved s then iterator s else tl (iterator s))"
  "settled (catch_block opts e s) = (if stopOnError opts \<and> settled s = Pending then Rejected (Raised e) else settled s)"
  "pulls (catch_block opts e s) = (if stopOnError opts \<or> isResolved s then pulls s else pulls s @ [(fst (iterator_next (iterator s)), FromCatch)])"
  "thrown (catch_block opts e s) = thrown s"
  "tasks (catch_block opts e s) = tasks s"
  "runner (catch_block opts e s) = runner s"
  "caught (catch_block opts e s) = caught s @ [e]"
  "invoked (catch_block opts e s) = invoked s"
  by (simp_all add: catch_block_def reject_fields next_call_fields Let_def)

lemma spawn_fields:
  "result (spawn v index val s) = result s"
  "errors (spawn v index val s) = errors s"
  "skippedIndexesMap (spawn v index val s) = skippedIndexesMap s"
  "isRejected (spawn v index val s) = isRejected s"
  "isResolved (spawn v index val s) = isResolved s"
  "isIterableDone (spawn v index val s) = isIterableDone s"
  "resolvingCount (spawn v index val s) = resolvingCount s"
  "currentIndex (spawn v index val s) = currentIndex s"
  "iterator (spawn v index val s) = iterator s"
  "settled (spawn v index val s) = settled s"
  "pulls (spawn v index val s) = pulls s"
  "thrown (spawn v index val s) = thrown s"
  "tasks (spawn v index val s) = (if v = JS \<and> isResolved s then tasks s else tasks s @ [(index, AwaitValue val)])"
  "runner (spawn v index val s) = runner s"
  "caught (spawn v index val s) = caught s"
  "invoked (spawn v index val s) = invoked s"
  by (simp_all add: spawn_def)

lemma remove_task_fields:
  "result (remove_task index s) = result s"
  "errors (remove_task index s) = errors s"
  "skippedIndexesMap (remove_task index s) = skippedIndexesMap s"
  "isRejected (remove_task index s) = isRejected s"
  "isResolved (remove_task index s) = isResolved s"
  "isIterableDone (remove_task index s) = isIterableDone s"
  "resolvingCount (remove_task index s) = resolvingCount s"
  "currentIndex (remove_task index s) = currentIndex s"
  "iterator (remove_task index s) = iterator s"
  "settled (remove_task index s) = settled s"
  "pulls (remove_task index s) = pulls s"
  "thrown (remove_task index s) = thrown s"
  "tasks (remove_task index s) = filter (\<lambda>(i, t). i \<noteq> index) (tasks s)"
  "runner (remove_task index s) = runner s"
  "caught (remove_task index s) = caught s"
  "invoked (remove_task index s) = invoked s"
  by (simp_all add: remove_task_def)

lemmas fields = settle_fields reject_fields returned_fields next_call_fields finalize_fields catch_block_fields spawn_fields remove_task_fields fst_iterator_next_Done

lemma wfD:
  assumes "wf_state opts s"
  shows "(settled s = Pending) = (\<not> isResolved s)"
    and "(is_Rejected (settled s) \<longrightarrow> isRejected s)"
    and "(isResolved s \<longrightarrow> isIterableDone s \<or> isRejected s)"
    and "distinct (map fst (tasks s))"
    and "(\<forall>i\<in>set (map fst (tasks s)). i < currentIndex s)"
    and "(iterator s \<noteq> [] \<longrightarrow> Done \<notin> set (map fst (pulls s)))"
    and "(isIterableDone s \<longrightarrow> iterator s = [] \<and> (\<forall>x\<in>set (map fst (pulls s)). x = Done))"
    and "done_tail (map fst (pulls s))"
    and "(caught s = [] \<longrightarrow> resolvingCount s = int (length (tasks s)) \<and> errors s = [])"
    and "(caught s \<noteq> [] \<longrightarrow> isResolved s \<or> (\<not> stopOnError opts \<and> errors s \<noteq> []))"
    and "(isResolved s \<and> \<not> isRejected s \<longrightarrow> tasks s = [])"
    and "(isRejected s \<longrightarrow> caught s \<noteq> [])"
  using assms by (simp_all add: wf_state_def)

lemma wf_state_pull_0:
  assumes "wf_state opts (t\<lparr>pulls := (x, c) # pulls t\<rparr>)"
  shows "(settled (next_resume v opts x c t) = Pending) = (\<not> isResolved (next_resume v opts x c t))"
  using assms
  by (cases x; cases c) (auto simp: wf_state_def evops fields Let_def fst_retag fst_retag_comp done_tail_snoc_Done done_tail_snoc split: if_splits)

lemma wf_state_pull_1:
  assumes "wf_state opts (t\<lparr>pulls := (x, c) # pulls t\<rparr>)"
  shows "(is_Rejected (settled (next_resume v opts x c t)) \<longrightarrow> isRejected (next_resume v opts x c t))"
  using wfD(1)[OF assms(1)] wfD(2)[OF assms(1)] wfD(3)[OF assms(1)] wfD(7)[OF assms(1)] wfD(11)[OF assms(1)]
  by (cases x; cases c) (auto simp: evops fields Let_def fst_retag fst_retag_comp split: if_splits)

lemma wf_state_pull_2:
  assumes "wf_state opts (t\<lparr>pulls := (x, c) # pulls t\<rparr>)"
  shows "(isResolved (next_resume v opts x c t) \<longrightarrow> isIterableDone (next_resume v opts x c t) \<or> isRejected (next_resume v opts x c t))"
  using assms
  by (cases x; cases c) (auto simp: wf_state_def evops fields Let_def fst_retag fst_retag_comp done_tail_snoc_Done done_tail_snoc split: if_splits)

lemma wf_state_pull_3:
  assumes "wf_state opts (t\<lparr>pulls := (x, c) # pulls t\<rparr>)"
  shows "distinct (map fst (tasks (next_resume v opts x c t)))"
  using wfD(4)[OF assms(1)] wfD(5)[OF assms(1)]
  by (cases x; cases c) (auto simp: evops fields Let_def fst_retag fst_retag_comp distinct_map_filter)

lemma wf_state_pull_4:
  assumes "wf_state opts (t\<lparr>pulls := (x, c) # pulls t\<rparr>)"
  shows "(\<forall>i\<in>set (map fst (tasks (next_resume v opts x c t))). i < currentIndex (next_resume v opts x c t))"
  using wfD(5)[OF assms(1)]
  by (cases x; cases c) (auto simp: evops fields Let_def fst_retag fst_retag_comp intro: less_SucI)

lemma wf_state_pull_5:
  assumes "wf_state opts (t\<lparr>pulls := (x, c) # pulls t\<rparr>)"
  shows "(iterator (next_resume v opts x c t) \<noteq> [] \<longrightarrow> Done \<notin> set (map fst (pulls (next_resume v opts x c t))))"
  using wfD(6)[OF assms(1)] wfD(7)[OF assms(1)]
  by (cases x; cases c) (auto simp: evops fields Let_def fst_retag fst_retag_comp dest: tl_nonempty)

lemma wf_state_pull_6:
  assumes "wf_state opts (t\<lparr>pulls := (x, c) # pulls t\<rparr>)"
  shows "(isIterableDone (next_resume v opts x c t) \<longrightarrow> iterator (next_resume v opts x c t) = [] \<and> (\<forall>x\<in>set (map fst (pulls (next_resume v opts x c t))). x = Done))"
  using assms
  by (cases x; cases c) (auto simp: wf_state_def evops fields Let_def fst_retag fst_retag_comp done_tail_snoc_Done done_tail_snoc split: if_splits)

lemma wf_state_pull_7:
  assumes "wf_state opts (t\<lparr>pulls := (x, c) # pulls t\<rparr>)"
  shows "done_tail (map fst (pulls (next_resume v opts x c t)))"
  using wfD(6)[OF assms(1)] wfD(7)[OF assms(1)] wfD(8)[OF assms(1)]
  by (cases x; cases c) (auto simp: evops fields Let_def fst_retag fst_retag_comp intro: done_tail_next done_tail_all_Done dest: done_tail_Cons)

lemma wf_state_pull_8:
  assumes "wf_state opts (t\<lparr>pulls := (x, c) # pulls t\<rparr>)"
  shows "(caught (next_resume v opts x c t) = [] \<longrightarrow> resolvingCount (next_resume v opts x c t) = int (length (tasks (next_resume v opts x c t))) \<and> errors (next_resume v opts x c t) = [])"
  using wfD(3)[OF assms(1)] wfD(4)[OF assms(1)] wfD(7)[OF assms(1)] wfD(9)[OF assms(1)] wfD(11)[OF assms(1)] wfD(12)[OF assms(1)]
  by (cases x; cases c) (auto simp: evops fields Let_def fst_retag fst_retag_comp drop_key_length)

lemma wf_state_pull_9:
  assumes "wf_state opts (t\<lparr>pulls := (x, c) # pulls t\<rparr>)"
  shows "(caught (next_resume v opts x c t) \<noteq> [] \<longrightarrow> isResolved (next_resume v opts x c t) \<or> (\<not> stopOnError opts \<and> errors (next_resume v opts x c t) \<noteq> []))"
  using assms
  by (cases x; cases c) (auto simp: wf_state_def evops fields Let_def fst_retag fst_retag_comp done_tail_snoc_Done done_tail_snoc split: if_splits)

lemma wf_state_pull_10:
  assumes "wf_state opts (t\<lparr>pulls := (x, c) # pulls t\<rparr>)"
  shows "(isResolved (next_resume v opts x c t) \<and> \<not> isRejected (next_resume v opts x c t) \<longrightarrow> tasks (next_resume v opts x c t) = [])"
  using wfD(1)[OF assms(1)] wfD(2)[OF assms(1)] wfD(3)[OF assms(1)] wfD(7)[OF assms(1)] wfD(9)[OF assms(1)] wfD(10)[OF assms(1)] wfD(11)[OF assms(1)]
  by (cases x; cases c) (auto simp: evops fields Let_def fst_retag fst_retag_comp split: if_splits)

lemma wf_state_pull_11:
  assumes "wf_state opts (t\<lparr>pulls := (x, c) # pulls t\<rparr>)"
  shows "(isRejected (next_resume v opts x c t) \<longrightarrow> caught (next_resume v opts x c t) \<noteq> [])"
  using assms
  by (cases x; cases c) (auto simp: wf_state_def evops fields Let_def fst_retag fst_retag_comp done_tail_snoc_Done done_tail_snoc split: if_splits)

lemma wf_state_pull:
  assumes "wf_state opts (t\<lparr>pulls := (x, c) # pulls t\<rparr>)"
  shows "wf_state opts (next_resume v opts x c t)"
  unfolding wf_state_def
  using wf_state_pull_0[OF assms] wf_state_pull_1[OF assms] wf_state_pull_2[OF assms] wf_state_pull_3[OF assms] wf_state_pull_4[OF assms] wf_state_pull_5[OF assms] wf_state_pull_6[OF assms] wf_state_pull_7[OF assms] wf_state_pull_8[OF assms] wf_state_pull_9[OF assms] wf_state_pull_10[OF assms] wf_state_pull_11[OF assms]
  by (intro conjI)

lemma wf_state_throw_0:
  assumes "wf_state opts (t\<lparr>thrown := (e, c) # thrown t\<rparr>)"
  shows "(settled (next_threw opts c e t) = Pending) = (\<not> isResolved (next_threw opts c e t))"
  using assms
  by (cases c) (auto simp: wf_state_def evops fields Let_def fst_retag fst_retag_comp done_tail_snoc_Done done_tail_snoc split: if_splits)

lemma wf_state_throw_1:
  assumes "wf_state opts (t\<lparr>thrown := (e, c) # thrown t\<rparr>)"
  shows "(is_Rejected (settled (next_threw opts c e t)) \<longrightarrow> isRejected (next_threw opts c e t))"
  using wfD(1)[OF assms(1)] wfD(2)[OF assms(1)] wfD(3)[OF assms(1)] wfD(7)[OF assms(1)] wfD(11)[OF assms(1)]
  by (cases c) (auto simp: evops fields Let_def fst_retag fst_retag_comp split: if_splits)

lemma wf_state_throw_2:
  assumes "wf_state opts (t\<lparr>thrown := (e, c) # thrown t\<rparr>)"
  shows "(isResolved (next_threw opts c e t) \<longrightarrow> isIterableDone (next_threw opts c e t) \<or> isRejected (next_threw opts c e t))"
  using assms
  by (cases c) (auto simp: wf_state_def evops fields Let_def fst_retag fst_retag_comp done_tail_snoc_Done done_tail_snoc split: if_splits)

lemma wf_state_throw_3:
  assumes "wf_state opts (t\<lparr>thrown := (e, c) # thrown t\<rparr>)"
  shows "distinct (map fst (tasks (next_threw opts c e t)))"
  using wfD(4)[OF assms(1)] wfD(5)[OF assms(1)]
  by (cases c) (auto simp: evops fields Let_def fst_retag fst_retag_comp distinct_map_filter)

lemma wf_state_throw_4:
  assumes "wf_state opts (t\<lparr>thrown := (e, c) # thrown t\<rparr>)"
  shows "(\<forall>i\<in>set (map fst (tasks (next_threw opts c e t))). i < currentIndex (next_threw opts c e t))"
  using wfD(5)[OF assms(1)]
  by (cases c) (auto simp: evops fields Let_def fst_retag fst_retag_comp intro: less_SucI)

lemma wf_state_throw_5:
  assumes "wf_state opts (t\<lparr>thrown := (e, c) # thrown t\<rparr>)"
  shows "(iterator (next_threw opts c e t) \<noteq> [] \<longrightarrow> Done \<notin> set (map fst (pulls (next_threw opts c e t))))"
  using wfD(6)[OF assms(1)] wfD(7)[OF assms(1)]
  by (cases c) (auto simp: evops fields Let_def fst_retag fst_retag_comp dest: tl_nonempty)

lemma wf_state_throw_6:
  assumes "wf_state opts (t\<lparr>thrown := (e, c) # thrown t\<rparr>)"
  shows "(isIterableDone (next_threw opts c e t) \<longrightarrow> iterator (next_threw opts c e t) = [] \<and> (\<forall>x\<in>set (map fst (pulls (next_threw opts c e t))). x = Done))"
  using assms
  by (cases c) (auto simp: wf_state_def evops fields Let_def fst_retag fst_retag_comp done_tail_snoc_Done done_tail_snoc split: if_splits)

lemma wf_state_throw_7:
  assumes "wf_state opts (t\<lparr>thrown := (e, c) # thrown t\<rparr>)"
  shows "done_tail (map fst (pulls (next_threw opts c e t)))"
  using wfD(6)[OF assms(1)] wfD(7)[OF assms(1)] wfD(8)[OF assms(1)]
  by (cases c) (auto simp: evops fields Let_def fst_retag fst_retag_comp intro: done_tail_next done_tail_all_Done dest: done_tail_Cons)

lemma wf_state_throw_8:
  assumes "wf_state opts (t\<lparr>thrown := (e, c) # thrown t\<rparr>)"
  shows "(caught (next_threw opts c e t) = [] \<longrightarrow> resolvingCount (next_threw opts c e t) = int (length (tasks (next_threw opts c e t))) \<and> errors (next_threw opts c e t) = [])"
  using wfD(3)[OF assms(1)] wfD(4)[OF assms(1)] wfD(7)[OF assms(1)] wfD(9)[OF assms(1)] wfD(11)[OF assms(1)] wfD(12)[OF assms(1)]
  by (cases c) (auto simp: evops fields Let_def fst_retag fst_retag_comp drop_key_length)

lemma wf_state_throw_9:
  assumes "wf_state opts (t\<lparr>thrown := (e, c) # thrown t\<rparr>)"
  shows "(caught (next_threw opts c e t) \<noteq> [] \<longrightarrow> isResolved (next_threw opts c e t) \<or> (\<not> stopOnError opts \<and> errors (next_threw opts c e t) \<noteq> []))"
  using assms
  by (cases c) (auto simp: wf_state_def evops fields Let_def fst_retag fst_retag_comp done_tail_snoc_Done done_tail_snoc split: if_splits)

lemma wf_state_throw_10:
  assumes "wf_state opts (t\<lparr>thrown := (e, c) # thrown t\<rparr>)"
  shows "(isResolved (next_threw opts c e t) \<and> \<not> isRejected (next_threw opts c e t) \<longrightarrow> tasks (next_threw opts c e t) = [])"
  using wfD(1)[OF assms(1)] wfD(2)[OF assms(1)] wfD(3)[OF assms(1)] wfD(7)[OF assms(1)] wfD(9)[OF assms(1)] wfD(10)[OF assms(1)] wfD(11)[OF assms(1)]
  by (cases c) (auto simp: evops fields Let_def fst_retag fst_retag_comp split: if_splits)

lemma wf_state_throw_11:
  assumes "wf_state opts (t\<lparr>thrown := (e, c) # thrown t\<rparr>)"
  shows "(isRejected (next_threw opts c e t) \<longrightarrow> caught (next_threw opts c e t) \<noteq> [])"
  using assms
  by (cases c) (auto simp: wf_state_def evops fields Let_def fst_retag fst_retag_comp done_tail_snoc_Done done_tail_snoc split: if_splits)

lemma wf_state_throw:
  assumes "wf_state opts (t\<lparr>thrown := (e, c) # thrown t\<rparr>)"
  shows "wf_state opts (next_threw opts c e t)"
  unfolding wf_state_def
  using wf_state_throw_0[OF assms] wf_state_throw_1[OF assms] wf_state_throw_2[OF assms] wf_state_throw_3[OF assms] wf_state_throw_4[OF assms] wf_state_throw_5[OF assms] wf_state_throw_6[OF assms] wf_state_throw_7[OF assms] wf_state_throw_8[OF assms] wf_state_throw_9[OF assms] wf_state_throw_10[OF assms] wf_state_throw_11[OF assms]
  by (intro conjI)

lemma wf_state_runner_0:
  assumes "wf_state opts s" "runner s = Resumed idx"
  shows "(settled (runner_resume opts idx s) = Pending) = (\<not> isResolved (runner_resume opts idx s))"
  using assms
  by (auto simp: wf_state_def evops fields Let_def fst_retag fst_retag_comp done_tail_snoc_Done done_tail_snoc split: if_splits)

lemma wf_state_runner_1:
  assumes "wf_state opts s" "runner s = Resumed idx"
  shows "(is_Rejected (settled (runner_resume opts idx s)) \<longrightarrow> isRejected (runner_resume opts idx s))"
  using wfD(1)[OF assms(1)] wfD(2)[OF assms(1)] wfD(3)[OF assms(1)] wfD(7)[OF assms(1)] wfD(11)[OF assms(1)] assms(2)
  by (auto simp: evops fields Let_def fst_retag fst_retag_comp split: if_splits)

lemma wf_state_runner_2:
  assumes "wf_state opts s" "runner s = Resumed idx"
  shows "(isResolved (runner_resume opts idx s) \<longrightarrow> isIterableDone (runner_resume opts idx s) \<or> isRejected (runner_resume opts idx s))"
  using assms
  by (auto simp: wf_state_def evops fields Let_def fst_retag fst_retag_comp done_tail_snoc_Done done_tail_snoc split: if_splits)

lemma wf_state_runner_3:
  assumes "wf_state opts s" "runner s = Resumed idx"
  shows "distinct (map fst (tasks (runner_resume opts idx s)))"
  using wfD(4)[OF assms(1)] wfD(5)[OF assms(1)] assms(2)
  by (auto simp: evops fields Let_def fst_retag fst_retag_comp distinct_map_filter)

lemma wf_state_runner_4:
  assumes "wf_state opts s" "runner s = Resumed idx"
  shows "(\<forall>i\<in>set (map fst (tasks (runner_resume opts idx s))). i < currentIndex (runner_resume opts idx s))"
  using wfD(5)[OF assms(1)] assms(2)
  by (auto simp: evops fields Let_def fst_retag fst_retag_comp intro: less_SucI)

lemma wf_state_runner_5:
  assumes "wf_state opts s" "runner s = Resumed idx"
  shows "(iterator (runner_resume opts idx s) \<noteq> [] \<longrightarrow> Done \<notin> set (map fst (pulls (runner_resume opts idx s))))"
  using wfD(6)[OF assms(1)] wfD(7)[OF assms(1)] assms(2)
  by (auto simp: evops fields Let_def fst_retag fst_retag_comp dest: tl_nonempty)

lemma wf_state_runner_6:
  assumes "wf_state opts s" "runner s = Resumed idx"
  shows "(isIterableDone (runner_resume opts idx s) \<longrightarrow> iterator (runner_resume opts idx s) = [] \<and> (\<forall>x\<in>set (map fst (pulls (runner_resume opts idx s))). x = Done))"
  using assms
  by (auto simp: wf_state_def evops fields Let_def fst_retag fst_retag_comp done_tail_snoc_Done done_tail_snoc split: if_splits)

lemma wf_state_runner_7:
  assumes "wf_state opts s" "runner s = Resumed idx"
  shows "done_tail (map fst (pulls (runner_resume opts idx s)))"
  using wfD(6)[OF assms(1)] wfD(7)[OF assms(1)] wfD(8)[OF assms(1)] assms(2)
  by (auto simp: evops fields Let_def fst_retag fst_retag_comp intro: done_tail_next done_tail_all_Done dest: done_tail_Cons)

lemma wf_state_runner_8:
  assumes "wf_state opts s" "runner s = Resumed idx"
  shows "(caught (runner_resume opts idx s) = [] \<longrightarrow> resolvingCount (runner_resume opts idx s) = int (length (tasks (runner_resume opts idx s))) \<and> errors (runner_resume opts idx s) = [])"
  using wfD(3)[OF assms(1)] wfD(4)[OF assms(1)] wfD(7)[OF assms(1)] wfD(9)[OF assms(1)] wfD(11)[OF assms(1)] wfD(12)[OF assms(1)] assms(2)
  by (auto simp: evops fields Let_def fst_retag fst_retag_comp drop_key_length)

lemma wf_state_runner_9:
  assumes "wf_state opts s" "runner s = Resumed idx"
  shows "(caught (runner_resume opts idx s) \<noteq> [] \<longrightarrow> isResolved (runner_resume opts idx s) \<or> (\<not> stopOnError opts \<and> errors (runner_resume opts idx s) \<noteq> []))"
  using assms
  by (auto simp: wf_state_def evops fields Let_def fst_retag fst_retag_comp done_tail_snoc_Done done_tail_snoc split: if_splits)

lemma wf_state_runner_10:
  assumes "wf_state opts s" "runner s = Resumed idx"
  shows "(isResolved (runner_resume opts idx s) \<and> \<not> isRejected (runner_resume opts idx s) \<longrightarrow> tasks (runner_resume opts idx s) = [])"
  using wfD(1)[OF assms(1)] wfD(2)[OF assms(1)] wfD(3)[OF assms(1)] wfD(7)[OF assms(1)] wfD(9)[OF assms(1)] wfD(10)[OF assms(1)] wfD(11)[OF assms(1)] assms(2)
  by (auto simp: evops fields Let_def fst_retag fst_retag_comp split: if_splits)

lemma wf_state_runner_11:
  assumes "wf_state opts s" "runner s = Resumed idx"
  shows "(isRejected (runner_resume opts idx s) \<longrightarrow> caught (runner_resume opts idx s) \<noteq> [])"
  using assms
  by (auto simp: wf_state_def evops fields Let_def fst_retag fst_retag_comp done_tail_snoc_Done done_tail_snoc split: if_splits)

lemma wf_state_runner:
  assumes "wf_state opts s" "runner s = Resumed idx"
  shows "wf_state opts (runner_resume opts idx s)"
  unfolding wf_state_def
  using wf_state_runner_0[OF assms] wf_state_runner_1[OF assms] wf_state_runner_2[OF assms] wf_state_runner_3[OF assms] wf_state_runner_4[OF assms] wf_state_runner_5[OF assms] wf_state_runner_6[OF assms] wf_state_runner_7[OF assms] wf_state_runner_8[OF assms] wf_state_runner_9[OF assms] wf_state_runner_10[OF assms] wf_state_runner_11[OF assms]
  by (intro conjI)

lemma wf_state_value_0:
  assumes "wf_state opts s" "map_of (tasks s) index = Some (AwaitValue val)"
  shows "(settled (value_resume v opts index val s) = Pending) = (\<not> isResolved (value_resume v opts index val s))"
  using assms
  by (cases val) (auto simp: wf_state_def evops fields Let_def fst_retag fst_retag_comp done_tail_snoc_Done done_tail_snoc split: if_splits)

lemma wf_state_value_1:
  assumes "wf_state opts s" "map_of (tasks s) index = Some (AwaitValue val)"
  shows "(is_Rejected (settled (value_resume v opts index val s)) \<longrightarrow> isRejected (value_resume v opts index val s))"
  using wfD(1)[OF assms(1)] wfD(2)[OF assms(1)] wfD(3)[OF assms(1)] wfD(7)[OF assms(1)] wfD(11)[OF assms(1)] assms(2)
  by (cases val) (auto simp: evops fields Let_def fst_retag fst_retag_comp split: if_splits)

lemma wf_state_value_2:
  assumes "wf_state opts s" "map_of (tasks s) index = Some (AwaitValue val)"
  shows "(isResolved (value_resume v opts index val s) \<longrightarrow> isIterableDone (value_resume v opts index val s) \<or> isRejected (value_resume v opts index val s))"
  using assms
  by (cases val) (auto simp: wf_state_def evops fields Let_def fst_retag fst_retag_comp done_tail_snoc_Done done_tail_snoc split: if_splits)

lemma wf_state_value_3:
  assumes "wf_state opts s" "map_of (tasks s) index = Some (AwaitValue val)"
  shows "distinct (map fst (tasks (value_resume v opts index val s)))"
  using wfD(4)[OF assms(1)] wfD(5)[OF assms(1)] assms(2)
  by (cases val) (auto simp: evops fields Let_def fst_retag fst_retag_comp distinct_map_filter)

lemma wf_state_value_4:
  assumes "wf_state opts s" "map_of (tasks s) index = Some (AwaitValue val)"
  shows "(\<forall>i\<in>set (map fst (tasks (value_resume v opts index val s))). i < currentIndex (value_resume v opts index val s))"
  using wfD(5)[OF assms(1)] assms(2)
  by (cases val) (auto simp: evops fields Let_def fst_retag fst_retag_comp intro: less_SucI)

lemma wf_state_value_5:
  assumes "wf_state opts s" "map_of (tasks s) index = Some (AwaitValue val)"
  shows "(iterator (value_resume v opts index val s) \<noteq> [] \<longrightarrow> Done \<notin> set (map fst (pulls (value_resume v opts index val s))))"
  using wfD(6)[OF assms(1)] wfD(7)[OF assms(1)] assms(2)
  by (cases val) (auto simp: evops fields Let_def fst_retag fst_retag_comp dest: tl_nonempty)

lemma wf_state_value_6:
  assumes "wf_state opts s" "map_of (tasks s) index = Some (AwaitValue val)"
  shows "(isIterableDone (value_resume v opts index val s) \<longrightarrow> iterator (value_resume v opts index val s) = [] \<and> (\<forall>x\<in>set (map fst (pulls (value_resume v opts index val s))). x = Done))"
  using assms
  by (cases val) (auto simp: wf_state_def evops fields Let_def fst_retag fst_retag_comp done_tail_snoc_Done done_tail_snoc split: if_splits)

lemma wf_state_value_7:
  assumes "wf_state opts s" "map_of (tasks s) index = Some (AwaitValue val)"
  shows "done_tail (map fst (pulls (value_resume v opts index val s)))"
  using wfD(6)[OF assms(1)] wfD(7)[OF assms(1)] wfD(8)[OF assms(1)] assms(2)
  by (cases val) (auto simp: evops fields Let_def fst_retag fst_retag_comp intro: done_tail_next done_tail_all_Done dest: done_tail_Cons)

lemma wf_state_value_8:
  assumes "wf_state opts s" "map_of (tasks s) index = Some (AwaitValue val)"
  shows "(caught (value_resume v opts index val s) = [] \<longrightarrow> resolvingCount (value_resume v opts index val s) = int (length (tasks (value_resume v opts index val s))) \<and> errors (value_resume v opts index val s) = [])"
  using wfD(3)[OF assms(1)] wfD(4)[OF assms(1)] wfD(7)[OF assms(1)] wfD(9)[OF assms(1)] wfD(11)[OF assms(1)] wfD(12)[OF assms(1)] assms(2)
  by (cases val) (auto simp: evops fields Let_def fst_retag fst_retag_comp drop_key_length)

lemma wf_state_value_9:
  assumes "wf_state opts s" "map_of (tasks s) index = Some (AwaitValue val)"
  shows "(caught (value_resume v opts index val s) \<noteq> [] \<longrightarrow> isResolved (value_resume v opts index val s) \<or> (\<not> stopOnError opts \<and> errors (value_resume v opts index val s) \<noteq> []))"
  using assms
  by (cases val) (auto simp: wf_state_def evops fields Let_def fst_retag fst_retag_comp done_tail_snoc_Done done_tail_snoc split: if_splits)

lemma wf_state_value_10:
  assumes "wf_state opts s" "map_of (tasks s) index = Some (AwaitValue val)"
  shows "(isResolved (value_resume v opts index val s) \<and> \<not> isRejected (value_resume v opts index val s) \<longrightarrow> tasks (value_resume v opts index val s) = [])"
  using wfD(1)[OF assms(1)] wfD(2)[OF assms(1)] wfD(3)[OF assms(1)] wfD(7)[OF assms(1)] wfD(9)[OF assms(1)] wfD(10)[OF assms(1)] wfD(11)[OF assms(1)] assms(2)
  by (cases val) (auto simp: evops fields Let_def fst_retag fst_retag_comp split: if_splits)

lemma wf_state_value_11:
  assumes "wf_state opts s" "map_of (tasks s) index = Some (AwaitValue val)"
  shows "(isRejected (value_resume v opts index val s) \<longrightarrow> caught (value_resume v opts index val s) \<noteq> [])"
  using assms
  by (cases val) (auto simp: wf_state_def evops fields Let_def fst_retag fst_retag_comp done_tail_snoc_Done done_tail_snoc split: if_splits)

lemma wf_state_value:
  assumes "wf_state opts s" "map_of (tasks s) index = Some (AwaitValue val)"
  shows "wf_state opts (value_resume v opts index val s)"
  unfolding wf_state_def
  using wf_state_value_0[OF assms] wf_state_value_1[OF assms] wf_state_value_2[OF assms] wf_state_value_3[OF assms] wf_state_value_4[OF assms] wf_state_value_5[OF assms] wf_state_value_6[OF assms] wf_state_value_7[OF assms] wf_state_value_8[OF assms] wf_state_value_9[OF assms] wf_state_value_10[OF assms] wf_state_value_11[OF assms]
  by (intro conjI)

lemma wf_state_mapper_0:
  assumes "wf_state opts s" "map_of (tasks s) index = Some (AwaitMapper res)"
  shows "(settled (mapper_resume opts index res s) = Pending) = (\<not> isResolved (mapper_resume opts index res s))"
  using assms
  by (cases res) (auto simp: wf_state_def evops fields Let_def fst_retag fst_retag_comp done_tail_snoc_Done done_tail_snoc split: if_splits)

lemma wf_state_mapper_1:
  assumes "wf_state opts s" "map_of (tasks s) index = Some (AwaitMapper res)"
  shows "(is_Rejected (settled (mapper_resume opts index res s)) \<longrightarrow> isRejected (mapper_resume opts index res s))"
  using wfD(1)[OF assms(1)] wfD(2)[OF assms(1)] wfD(3)[OF assms(1)] wfD(7)[OF assms(1)] wfD(11)[OF assms(1)] assms(2)
  by (cases res) (auto simp: evops fields Let_def fst_retag fst_retag_comp split: if_splits)

lemma wf_state_mapper_2:
  assumes "wf_state opts s" "map_of (tasks s) index = Some (AwaitMapper res)"
  shows "(isResolved (mapper_resume opts index res s) \<longrightarrow> isIterableDone (mapper_resume opts index res s) \<or> isRejected (mapper_resume opts index res s))"
  using assms
  by (cases res) (auto simp: wf_state_def evops fields Let_def fst_retag fst_retag_comp done_tail_snoc_Done done_tail_snoc split: if_splits)

lemma wf_state_mapper_3:
  assumes "wf_state opts s" "map_of (tasks s) index = Some (AwaitMapper res)"
  shows "distinct (map fst (tasks (mapper_resume opts index res s)))"
  using wfD(4)[OF assms(1)] wfD(5)[OF assms(1)] assms(2)
  by (cases res) (auto simp: evops fields Let_def fst_retag fst_retag_comp distinct_map_filter)

lemma wf_state_mapper_4:
  assumes "wf_state opts s" "map_of (tasks s) index = Some (AwaitMapper res)"
  shows "(\<forall>i\<in>set (map fst (tasks (mapper_resume opts index res s))). i < currentIndex (mapper_resume opts index res s))"
  using wfD(5)[OF assms(1)] assms(2)
  by (cases res) (auto simp: evops fields Let_def fst_retag fst_retag_comp intro: less_SucI)

lemma wf_state_mapper_5:
  assumes "wf_state opts s" "map_of (tasks s) index = Some (AwaitMapper res)"
  shows "(iterator (mapper_resume opts index res s) \<noteq> [] \<longrightarrow> Done \<notin> set (map fst (pulls (mapper_resume opts index res s))))"
  using wfD(6)[OF assms(1)] wfD(7)[OF assms(1)] assms(2)
  by (cases res) (auto simp: evops fields Let_def fst_retag fst_retag_comp dest: tl_nonempty)

lemma wf_state_mapper_6:
  assumes "wf_state opts s" "map_of (tasks s) index = Some (AwaitMapper res)"
  shows "(isIterableDone (mapper_resume opts index res s) \<longrightarrow> iterator (mapper_resume opts index res s) = [] \<and> (\<forall>x\<in>set (map fst (pulls (mapper_resume opts index res s))). x = Done))"
  using assms
  by (cases res) (auto simp: wf_state_def evops fields Let_def fst_retag fst_retag_comp done_tail_snoc_Done done_tail_snoc split: if_splits)

lemma wf_state_mapper_7:
  assumes "wf_state opts s" "map_of (tasks s) index = Some (AwaitMapper res)"
  shows "done_tail (map fst (pulls (mapper_resume opts index res s)))"
  using wfD(6)[OF assms(1)] wfD(7)[OF assms(1)] wfD(8)[OF assms(1)] assms(2)
  by (cases res) (auto simp: evops fields Let_def fst_retag fst_retag_comp intro: done_tail_next done_tail_all_Done dest: done_tail_Cons)

lemma wf_state_mapper_8:
  assumes "wf_state opts s" "map_of (tasks s) index = Some (AwaitMapper res)"
  shows "(caught (mapper_resume opts index res s) = [] \<longrightarrow> resolvingCount (mapper_resume opts index res s) = int (length (tasks (mapper_resume opts index res s))) \<and> errors (mapper_resume opts index res s) = [])"
  using wfD(3)[OF assms(1)] wfD(4)[OF assms(1)] wfD(7)[OF assms(1)] wfD(9)[OF assms(1)] wfD(11)[OF assms(1)] wfD(12)[OF assms(1)] assms(2)
  by (cases res) (auto simp: evops fields Let_def fst_retag fst_retag_comp drop_key_length)

lemma wf_state_mapper_9:
  assumes "wf_state opts s" "map_of (tasks s) index = Some (AwaitMapper res)"
  shows "(caught (mapper_resume opts index res s) \<noteq> [] \<longrightarrow> isResolved (mapper_resume opts index res s) \<or> (\<not> stopOnError opts \<and> errors (mapper_resume opts index res s) \<noteq> []))"
  using assms
  by (cases res) (auto simp: wf_state_def evops fields Let_def fst_retag fst_retag_comp done_tail_snoc_Done done_tail_snoc split: if_splits)

lemma wf_state_mapper_10:
  assumes "wf_state opts s" "map_of (tasks s) index = Some (AwaitMapper res)"
  shows "(isResolved (mapper_resume opts index res s) \<and> \<not> isRejected (mapper_resume opts index res s) \<longrightarrow> tasks (mapper_resume opts index res s) = [])"
  using wfD(1)[OF assms(1)] wfD(2)[OF assms(1)] wfD(3)[OF assms(1)] wfD(7)[OF assms(1)] wfD(9)[OF assms(1)] wfD(10)[OF assms(1)] wfD(11)[OF assms(1)] assms(2)
  by (cases res) (auto simp: evops fields Let_def fst_retag fst_retag_comp split: if_splits)

lemma wf_state_mapper_11:
  assumes "wf_state opts s" "map_of (tasks s) index = Some (AwaitMapper res)"
  shows "(isRejected (mapper_resume opts index res s) \<longrightarrow> caught (mapper_resume opts index res s) \<noteq> [])"
  using assms
  by (cases res) (auto simp: wf_state_def evops fields Let_def fst_retag fst_retag_comp done_tail_snoc_Done done_tail_snoc split: if_splits)

lemma wf_state_mapper:
  assumes "wf_state opts s" "map_of (tasks s) index = Some (AwaitMapper res)"
  shows "wf_state opts (mapper_resume opts index res s)"
  unfolding wf_state_def
  using wf_state_mapper_0[OF assms] wf_state_mapper_1[OF assms] wf_state_mapper_2[OF assms] wf_state_mapper_3[OF assms] wf_state_mapper_4[OF assms] wf_state_mapper_5[OF assms] wf_state_mapper_6[OF assms] wf_state_mapper_7[OF assms] wf_state_mapper_8[OF assms] wf_state_mapper_9[OF assms] wf_state_mapper_10[OF assms] wf_state_mapper_11[OF assms]
  by (intro conjI)

lemma wf_state_step:
  assumes "wf_state opts s" "step v opts s ev = Some s'"
  shows "wf_state opts s'"
  using assms(2)
proof (cases rule: step_elims)
  case (Pull x c rest)
  define t where "t = s\<lparr>pulls := rest\<rparr>"
  have t: "t\<lparr>pulls := (x, c) # pulls t\<rparr> = s"
    unfolding t_def using Pull(2) by simp
  have h1: "wf_state opts (t\<lparr>pulls := (x, c) # pulls t\<rparr>)"
    using assms(1) by (simp add: t)
  show ?thesis
    unfolding Pull(3) t_def[symmetric] by (rule wf_state_pull[OF h1])
next
  case (Thr e c rest)
  define t where "t = s\<lparr>thrown := rest\<rparr>"
  have t: "t\<lparr>thrown := (e, c) # thrown t\<rparr> = s"
    unfolding t_def using Thr(2) by simp
  have h1: "wf_state opts (t\<lparr>thrown := (e, c) # thrown t\<rparr>)"
    using assms(1) by (simp add: t)
  show ?thesis
    unfolding Thr(3) t_def[symmetric] by (rule wf_state_throw[OF h1])
next
  case (Runner idx)
  show ?thesis
    unfolding Runner(3) by (rule wf_state_runner[OF assms(1) Runner(2)])
next
  case (Val index val)
  show ?thesis
    unfolding Val(3) by (rule wf_state_value[OF assms(1) Val(2)])
next
  case (Map index res)
  show ?thesis
    unfolding Map(3) by (rule wf_state_mapper[OF assms(1) Map(2)])
qed

lemma wf_state_pMap:
  assumes "validate v opts = None"
  shows "wf_state opts (pMap v opts)"
proof -
  have valid: "below 0 (concurrency opts)"
    using assms
    by (cases v; cases "concurrency opts")
       (auto simp: validate_def validate_ts_def validate_js_def assertConcurrency_def
             split: input.splits option.splits if_splits)
  show ?thesis
    using assms valid
    by (simp add: pMap_def runner_iter_def wf_state_def fields initial_def)
qed

lemma run_snoc:
  "run v opts s (evs @ [ev]) =
     (case run v opts s evs of None \<Rightarrow> None | Some s' \<Rightarrow> step v opts s' ev)"
  by (induction evs arbitrary: s) (auto split: option.splits)

lemma run_append:
  "run v opts s (evs @ evs') =
     (case run v opts s evs of None \<Rightarrow> None | Some s' \<Rightarrow> run v opts s' evs')"
  by (induction evs arbitrary: s) (auto split: option.splits)

lemma wf_state_run:
  assumes "wf_state opts s" "run v opts s evs = Some s'"
  shows "wf_state opts s'"
  using assms
proof (induction evs arbitrary: s)
  case Nil
  then show ?case by simp
next
  case (Cons ev evs)
  then show ?case
    by (auto split: option.splits dest: wf_state_step)
qed

lemma wf_state_reachable:
  assumes "validate v opts = None" "run v opts (pMap v opts) evs = Some s"
  shows "wf_state opts s"
  using wf_state_run[OF wf_state_pMap[OF assms(1)] assms(2)] .



section \<open>The concurrency window\<close>

lemma below_at_most:
  assumes "assertConcurrency c" "below n c"
  shows "at_most (Suc n) c"
proof (cases c)
  case (Num x)
  from assms(1) Num have "of_int \<lfloor>x\<rfloor> = x"
    by (simp add: assertConcurrency_def)
  then obtain k :: int where k: "x = of_int k"
    by metis
  from assms(2) Num k have "int n < k"
    by simp
  then have "real (Suc n) \<le> of_int k"
    by linarith
  with Num k show ?thesis
    by simp
next
  case PosInfinity
  then show ?thesis by simp
next
  case NegInfinity
  with assms(2) show ?thesis by simp
next
  case NaN
  with assms(2) show ?thesis by simp
qed

lemma at_most_mono: "at_most n c \<Longrightarrow> m \<le> n \<Longrightarrow> at_most m c"
  by (cases c) auto

lemma below_le_at_most: "below n c \<Longrightarrow> m \<le> n \<Longrightarrow> at_most m c"
  by (cases c) auto

lemma below_Suc_at_most:
  "assertConcurrency c \<Longrightarrow> below n c \<Longrightarrow> m \<le> Suc n \<Longrightarrow> at_most m c"
  using at_most_mono[OF below_at_most] by blast

lemma windowD:
  assumes "window opts s"
  shows "map snd (filter (\<lambda>(x, c). is_runner_caller c) (pulls s)) @ map snd (filter (\<lambda>(e, c). is_runner_caller c) (thrown s)) = (case runner s of Awaiting n \<Rightarrow> [FromRunner n] | _ \<Rightarrow> [])"
    and "(case runner s of Awaiting n \<Rightarrow> strands s \<le> n \<and> below n (concurrency opts) | Resumed n \<Rightarrow> strands s \<le> Suc n \<and> below n (concurrency opts) | Finished \<Rightarrow> at_most (strands s) (concurrency opts))"
  using assms by (simp_all add: window_def)

lemma window_pull_0:
  assumes "window opts (t\<lparr>pulls := (x, c) # pulls t\<rparr>)" "wf_state opts (t\<lparr>pulls := (x, c) # pulls t\<rparr>)" "assertConcurrency (concurrency opts)"
  shows "map snd (filter (\<lambda>(x, c). is_runner_caller c) (pulls (next_resume v opts x c t))) @ map snd (filter (\<lambda>(e, c). is_runner_caller c) (thrown (next_resume v opts x c t))) = (case runner (next_resume v opts x c t) of Awaiting n \<Rightarrow> [FromRunner n] | _ \<Rightarrow> [])"
  using windowD(1)[OF assms(1)] windowD(2)[OF assms(1)] wfD(4)[OF assms(2)] assms(3)
  by (cases x; cases c) (auto simp: evops fields Let_def fst_retag fst_retag_comp strands_def at_most_mono intro: below_le_at_most below_at_most below_Suc_at_most dest: length_drop_key split: runner.splits caller.splits if_splits)

lemma window_pull_1:
  assumes "window opts (t\<lparr>pulls := (x, c) # pulls t\<rparr>)" "wf_state opts (t\<lparr>pulls := (x, c) # pulls t\<rparr>)" "assertConcurrency (concurrency opts)"
  shows "(case runner (next_resume v opts x c t) of Awaiting n \<Rightarrow> strands (next_resume v opts x c t) \<le> n \<and> below n (concurrency opts) | Resumed n \<Rightarrow> strands (next_resume v opts x c t) \<le> Suc n \<and> below n (concurrency opts) | Finished \<Rightarrow> at_most (strands (next_resume v opts x c t)) (concurrency opts))"
  using windowD(1)[OF assms(1)] windowD(2)[OF assms(1)] wfD(4)[OF assms(2)] assms(3)
  by (cases x; cases c) (auto simp: evops fields Let_def fst_retag fst_retag_comp strands_def at_most_mono intro: below_le_at_most below_at_most below_Suc_at_most dest: length_drop_key split: runner.splits caller.splits if_splits)

lemma window_pull:
  assumes "window opts (t\<lparr>pulls := (x, c) # pulls t\<rparr>)" "wf_state opts (t\<lparr>pulls := (x, c) # pulls t\<rparr>)" "assertConcurrency (concurrency opts)"
  shows "window opts (next_resume v opts x c t)"
  unfolding window_def
  using window_pull_0[OF assms] window_pull_1[OF assms]
  by (intro conjI)

lemma window_throw_0:
  assumes "window opts (t\<lparr>thrown := (e, c) # thrown t\<rparr>)" "wf_state opts (t\<lparr>thrown := (e, c) # thrown t\<rparr>)" "assertConcurrency (concurrency opts)"
  shows "map snd (filter (\<lambda>(x, c). is_runner_caller c) (pulls (next_threw opts c e t))) @ map snd (filter (\<lambda>(e, c). is_runner_caller c) (thrown (next_threw opts c e t))) = (case runner (next_threw opts c e t) of Awaiting n \<Rightarrow> [FromRunner n] | _ \<Rightarrow> [])"
  using windowD(1)[OF assms(1)] windowD(2)[OF assms(1)] wfD(4)[OF assms(2)] assms(3)
  by (cases c) (auto simp: evops fields Let_def fst_retag fst_retag_comp strands_def append_eq_Cons_conv split: runner.splits caller.splits if_splits)

lemma window_throw_1:
  assumes "window opts (t\<lparr>thrown := (e, c) # thrown t\<rparr>)" "wf_state opts (t\<lparr>thrown := (e, c) # thrown t\<rparr>)" "assertConcurrency (concurrency opts)"
  shows "(case runner (next_threw opts c e t) of Awaiting n \<Rightarrow> strands (next_threw opts c e t) \<le> n \<and> below n (concurrency opts) | Resumed n \<Rightarrow> strands (next_threw opts c e t) \<le> Suc n \<and> below n (concurrency opts) | Finished \<Rightarrow> at_most (strands (next_threw opts c e t)) (concurrency opts))"
  using windowD(1)[OF assms(1)] windowD(2)[OF assms(1)] wfD(4)[OF assms(2)] assms(3)
  by (cases c) (auto simp: evops fields Let_def fst_retag fst_retag_comp strands_def at_most_mono intro: below_le_at_most below_at_most below_Suc_at_most dest: length_drop_key split: runner.splits caller.splits if_splits)

lemma window_throw:
  assumes "window opts (t\<lparr>thrown := (e, c) # thrown t\<rparr>)" "wf_state opts (t\<lparr>thrown := (e, c) # thrown t\<rparr>)" "assertConcurrency (concurrency opts)"
  shows "window opts (next_threw opts c e t)"
  unfolding window_def
  using window_throw_0[OF assms] window_throw_1[OF assms]
  by (intro conjI)

lemma window_runner_0:
  assumes "window opts s" "wf_state opts s" "assertConcurrency (concurrency opts)" "runner s = Resumed idx"
  shows "map snd (filter (\<lambda>(x, c). is_runner_caller c) (pulls (runner_resume opts idx s))) @ map snd (filter (\<lambda>(e, c). is_runner_caller c) (thrown (runner_resume opts idx s))) = (case runner (runner_resume opts idx s) of Awaiting n \<Rightarrow> [FromRunner n] | _ \<Rightarrow> [])"
  using windowD(1)[OF assms(1)] windowD(2)[OF assms(1)] wfD(4)[OF assms(2)] assms(3-)
  by (auto simp: evops fields Let_def fst_retag fst_retag_comp strands_def at_most_mono intro: below_le_at_most below_at_most below_Suc_at_most dest: length_drop_key split: runner.splits caller.splits if_splits)

lemma window_runner_1:
  assumes "window opts s" "wf_state opts s" "assertConcurrency (concurrency opts)" "runner s = Resumed idx"
  shows "(case runner (runner_resume opts idx s) of Awaiting n \<Rightarrow> strands (runner_resume opts idx s) \<le> n \<and> below n (concurrency opts) | Resumed n \<Rightarrow> strands (runner_resume opts idx s) \<le> Suc n \<and> below n (concurrency opts) | Finished \<Rightarrow> at_most (strands (runner_resume opts idx s)) (concurrency opts))"
  using windowD(1)[OF assms(1)] windowD(2)[OF assms(1)] wfD(4)[OF assms(2)] assms(3-)
  by (auto simp: evops fields Let_def fst_retag fst_retag_comp strands_def at_most_mono intro: below_le_at_most below_at_most below_Suc_at_most dest: length_drop_key split: runner.splits caller.splits if_splits)

lemma window_runner:
  assumes "window opts s" "wf_state opts s" "assertConcurrency (concurrency opts)" "runner s = Resumed idx"
  shows "window opts (runner_resume opts idx s)"
  unfolding window_def
  using window_runner_0[OF assms] window_runner_1[OF assms]
  by (intro conjI)

lemma window_value_0:
  assumes "window opts s" "wf_state opts s" "assertConcurrency (concurrency opts)" "map_of (tasks s) index = Some (AwaitValue val)"
  shows "map snd (filter (\<lambda>(x, c). is_runner_caller c) (pulls (value_resume v opts index val s))) @ map snd (filter (\<lambda>(e, c). is_runner_caller c) (thrown (value_resume v opts index val s))) = (case runner (value_resume v opts index val s) of Awaiting n \<Rightarrow> [FromRunner n] | _ \<Rightarrow> [])"
  using windowD(1)[OF assms(1)] windowD(2)[OF assms(1)] wfD(4)[OF assms(2)] assms(3-)
  by (cases val) (auto simp: evops fields Let_def fst_retag fst_retag_comp strands_def at_most_mono intro: below_le_at_most below_at_most below_Suc_at_most dest: length_drop_key split: runner.splits caller.splits if_splits)

lemma window_value_1:
  assumes "window opts s" "wf_state opts s" "assertConcurrency (concurrency opts)" "map_of (tasks s) index = Some (AwaitValue val)"
  shows "(case runner (value_resume v opts index val s) of Awaiting n \<Rightarrow> strands (value_resume v opts index val s) \<le> n \<and> below n (concurrency opts) | Resumed n \<Rightarrow> strands (value_resume v opts index val s) \<le> Suc n \<and> below n (concurrency opts) | Finished \<Rightarrow> at_most (strands (value_resume v opts index val s)) (concurrency opts))"
  using windowD(1)[OF assms(1)] windowD(2)[OF assms(1)] wfD(4)[OF assms(2)] assms(3-)
  by (cases val) (auto simp: evops fields Let_def fst_retag fst_retag_comp strands_def at_most_mono intro: below_le_at_most below_at_most below_Suc_at_most dest: length_drop_key split: runner.splits caller.splits if_splits)

lemma window_value:
  assumes "window opts s" "wf_state opts s" "assertConcurrency (concurrency opts)" "map_of (tasks s) index = Some (AwaitValue val)"
  shows "window opts (value_resume v opts index val s)"
  unfolding window_def
  using window_value_0[OF assms] window_value_1[OF assms]
  by (intro conjI)

lemma window_mapper_0:
  assumes "window opts s" "wf_state opts s" "assertConcurrency (concurrency opts)" "map_of (tasks s) index = Some (AwaitMapper res)"
  shows "map snd (filter (\<lambda>(x, c). is_runner_caller c) (pulls (mapper_resume opts index res s))) @ map snd (filter (\<lambda>(e, c). is_runner_caller c) (thrown (mapper_resume opts index res s))) = (case runner (mapper_resume opts index res s) of Awaiting n \<Rightarrow> [FromRunner n] | _ \<Rightarrow> [])"
  using windowD(1)[OF assms(1)] windowD(2)[OF assms(1)] wfD(4)[OF assms(2)] assms(3-)
  by (cases res) (auto simp: evops fields Let_def fst_retag fst_retag_comp strands_def at_most_mono intro: below_le_at_most below_at_most below_Suc_at_most dest: length_drop_key split: runner.splits caller.splits if_splits)

lemma window_mapper_1:
  assumes "window opts s" "wf_state opts s" "assertConcurrency (concurrency opts)" "map_of (tasks s) index = Some (AwaitMapper res)"
  shows "(case runner (mapper_resume opts index res s) of Awaiting n \<Rightarrow> strands (mapper_resume opts index res s) \<le> n \<and> below n (concurrency opts) | Resumed n \<Rightarrow> strands (mapper_resume opts index res s) \<le> Suc n \<and> below n (concurrency opts) | Finished \<Rightarrow> at_most (strands (mapper_resume opts index res s)) (concurrency opts))"
  using windowD(1)[OF assms(1)] windowD(2)[OF assms(1)] wfD(4)[OF assms(2)] assms(3-)
  by (cases res) (auto simp: evops fields Let_def fst_retag fst_retag_comp strands_def at_most_mono intro: below_le_at_most below_at_most below_Suc_at_most dest: length_drop_key split: runner.splits caller.splits if_splits)

lemma window_mapper:
  assumes "window opts s" "wf_state opts s" "assertConcurrency (concurrency opts)" "map_of (tasks s) index = Some (AwaitMapper res)"
  shows "window opts (mapper_resume opts index res s)"
  unfolding window_def
  using window_mapper_0[OF assms] window_mapper_1[OF assms]
  by (intro conjI)

lemma window_step:
  assumes "window opts s" "wf_state opts s" "assertConcurrency (concurrency opts)" "step v opts s ev = Some s'"
  shows "window opts s'"
  using assms(4)
proof (cases rule: step_elims)
  case (Pull x c rest)
  define t where "t = s\<lparr>pulls := rest\<rparr>"
  have t: "t\<lparr>pulls := (x, c) # pulls t\<rparr> = s"
    unfolding t_def using Pull(2) by simp
  have h1: "window opts (t\<lparr>pulls := (x, c) # pulls t\<rparr>)"
    using assms(1) by (simp add: t)
  have h2: "wf_state opts (t\<lparr>pulls := (x, c) # pulls t\<rparr>)"
    using assms(2) by (simp add: t)
  have h3: "assertConcurrency (concurrency opts)"
    using assms(3) by (simp add: t)
  show ?thesis
    unfolding Pull(3) t_def[symmetric] by (rule window_pull[OF h1 h2 h3])
next
  case (Thr e c rest)
  define t where "t = s\<lparr>thrown := rest\<rparr>"
  have t: "t\<lparr>thrown := (e, c) # thrown t\<rparr> = s"
    unfolding t_def using Thr(2) by simp
  have h1: "window opts (t\<lparr>thrown := (e, c) # thrown t\<rparr>)"
    using assms(1) by (simp add: t)
  have h2: "wf_state opts (t\<lparr>thrown := (e, c) # thrown t\<rparr>)"
    using assms(2) by (simp add: t)
  have h3: "assertConcurrency (concurrency opts)"
    using assms(3) by (simp add: t)
  show ?thesis
    unfolding Thr(3) t_def[symmetric] by (rule window_throw[OF h1 h2 h3])
next
  case (Runner idx)
  show ?thesis
    unfolding Runner(3) by (rule window_runner[OF assms(1) assms(2) assms(3) Runner(2)])
next
  case (Val index val)
  show ?thesis
    unfolding Val(3) by (rule window_value[OF assms(1) assms(2) assms(3) Val(2)])
next
  case (Map index res)
  show ?thesis
    unfolding Map(3) by (rule window_mapper[OF assms(1) assms(2) assms(3) Map(2)])
qed

lemma validate_assertConcurrency:
  "validate v opts = None \<Longrightarrow> assertConcurrency (concurrency opts)"
  by (cases v; cases "iterable opts")
     (auto simp: validate_def validate_ts_def validate_js_def assertConcurrency_def
           split: option.splits if_splits)

lemma validate_below_0:
  "validate v opts = None \<Longrightarrow> below 0 (concurrency opts)"
  by (drule validate_assertConcurrency, cases "concurrency opts")
     (auto simp: assertConcurrency_def)

lemma window_pMap:
  assumes "validate v opts = None"
  shows "window opts (pMap v opts)"
  using assms validate_below_0[OF assms]
  by (simp add: pMap_def runner_iter_def window_def strands_def fields initial_def)

lemma window_run:
  assumes "window opts s" "wf_state opts s" "assertConcurrency (concurrency opts)"
    "run v opts s evs = Some s'"
  shows "window opts s'"
  using assms
proof (induction evs arbitrary: s)
  case Nil
  then show ?case by simp
next
  case (Cons ev evs)
  from Cons.prems(4) obtain s1 where s1: "step v opts s ev = Some s1" "run v opts s1 evs = Some s'"
    by (auto split: option.splits)
  have "window opts s1"
    using window_step[OF Cons.prems(1-3) s1(1)] .
  moreover have "wf_state opts s1"
    using wf_state_step[OF Cons.prems(2) s1(1)] .
  ultimately show ?case
    using Cons.IH Cons.prems(3) s1(2) by blast
qed

lemma window_tasks:
  assumes "window opts s" "assertConcurrency (concurrency opts)"
  shows "at_most (length (tasks s)) (concurrency opts)"
proof -
  have le: "length (tasks s) \<le> strands s"
    by (simp add: strands_def)
  show ?thesis
  proof (cases "runner s")
    case (Awaiting n)
    with windowD(2)[OF assms(1)] le show ?thesis
      by (auto intro: below_le_at_most)
  next
    case (Resumed n)
    with windowD(2)[OF assms(1)] le assms(2) show ?thesis
      by (auto intro: below_Suc_at_most)
  next
    case Finished
    with windowD(2)[OF assms(1)] le show ?thesis
      by (auto intro: at_most_mono)
  qed
qed

lemma in_flight_le_tasks: "in_flight s \<le> length (tasks s)"
  by (simp add: in_flight_def)

text \<open>
  C7. In every state a call with valid arguments can reach, under any order in which
  the event loop resumes the pending strands, the mapper invocations that have started
  and not settled are at most \<open>concurrency\<close>; so are all tasks in flight,
  those still waiting for their element included.
\<close>

theorem in_flight_at_most_concurrency:
  assumes "validate v opts = None" "run v opts (pMap v opts) evs = Some s"
  shows "at_most (in_flight s) (concurrency opts) \<and> at_most (length (tasks s)) (concurrency opts)"
proof -
  have c: "assertConcurrency (concurrency opts)"
    using validate_assertConcurrency[OF assms(1)] .
  have "window opts s"
    using window_run[OF window_pMap[OF assms(1)] wf_state_pMap[OF assms(1)] c assms(2)] .
  then have "at_most (length (tasks s)) (concurrency opts)"
    using c by (rule window_tasks)
  then show ?thesis
    using in_flight_le_tasks[of s] by (auto intro: at_most_mono)
qed

lemmas eval_defs = pMap_def validate_def validate_ts_def validate_js_def assertConcurrency_def
  initial_def step_def next_resume_def next_threw_def value_resume_def mapper_resume_def
  runner_iter_def runner_resume_def settle_def reject_def returned_def next_call_def
  finalize_def catch_block_def spawn_def remove_task_def call_mapper_def array_set_def
  pureResult_def in_flight_def delivered_def quiescent_def Let_def

theorem in_flight_at_most_concurrency_witness:
  "validate TS three_items = None \<and>
   map_option in_flight (run TS three_items (pMap TS three_items)
      [EvPull, EvValue 0, EvRunner, EvPull, EvValue 1]) = Some 2 \<and>
   at_most 2 (concurrency three_items)"
proof -
  have v: "validate TS three_items = None"
    by (simp add: three_items_def eval_defs)
  obtain s where s: "run TS three_items (pMap TS three_items)
      [EvPull, EvValue 0, EvRunner, EvPull, EvValue 1] = Some s" "in_flight s = 2"
    by (simp add: three_items_def eval_defs)
  from in_flight_at_most_concurrency[OF v s(1)] s show ?thesis
    using v by simp
qed

section \<open>Every run ends\<close>

lemma sum_drop_key:
  "distinct (map fst ts) \<Longrightarrow> (k, t) \<in> set ts \<Longrightarrow>
     sum_list (map f (filter (\<lambda>(i, t). i \<noteq> k) ts)) + f (k, t) = (sum_list (map f ts) :: nat)"
proof (induction ts)
  case Nil
  then show ?case by simp
next
  case (Cons a ts)
  obtain i u where a: "a = (i, u)" by (cases a)
  show ?case
  proof (cases "i = k")
    case True
    with Cons.prems a have "k \<notin> fst ` set ts" by auto
    then have "filter (\<lambda>(i, t). i \<noteq> k) ts = ts"
      by (intro filter_True) force
    moreover from True Cons.prems a \<open>k \<notin> fst ` set ts\<close> have "u = t"
      by force
    ultimately show ?thesis using True a by simp
  next
    case False
    with Cons a show ?thesis by auto
  qed
qed

lemma sum_retag:
  "distinct (map fst ts) \<Longrightarrow> (k, t) \<in> set ts \<Longrightarrow>
     sum_list (map f (map (\<lambda>(i, t). if i = k then (i, X) else (i, t)) ts)) + f (k, t) =
       (sum_list (map f ts) + f (k, X) :: nat)"
proof (induction ts)
  case Nil
  then show ?case by simp
next
  case (Cons a ts)
  obtain i u where a: "a = (i, u)" by (cases a)
  show ?case
  proof (cases "i = k")
    case True
    with Cons.prems a have notin: "k \<notin> fst ` set ts" by auto
    then have "map (\<lambda>(i, t). if i = k then (i, X) else (i, t)) ts = ts"
      by (intro map_idI) force
    moreover from True Cons.prems a notin have "u = t"
      by force
    ultimately show ?thesis using True a by simp
  next
    case False
    with Cons a show ?thesis by auto
  qed
qed

lemma pull_weight_bounds: "1 \<le> pull_weight p" "pull_weight p \<le> 7"
  by (cases p rule: pull_weight.cases; simp)+

lemma pull_weight_Done: "pull_weight (Done, c) \<le> 2" "pull_weight (Done, FromTry) = 1"
  "pull_weight (Done, FromCatch) = 1"
  by (cases c; simp)+

lemma next_call_work:
  assumes "\<not> isResolved s"
  shows "work_left (next_call c s) + 8 * length (iterator s) \<le>
           work_left s + 8 * length (tl (iterator s)) + pull_weight (fst (iterator_next (iterator s)), c)"
  using assms by (simp add: work_left_def runner_weight_def fields)

lemma work_pull:
  assumes "wf_state opts (t\<lparr>pulls := (x, c) # pulls t\<rparr>)"
  shows "work_left (next_resume v opts x c t) < work_left (t\<lparr>pulls := (x, c) # pulls t\<rparr>)"
  using wfD(3)[OF assms]
  by (cases x; cases c; cases "iterator t" rule: iterator_next.cases)
     (auto simp: work_left_def runner_weight_def evops fields Let_def split: if_splits runner.splits)

lemma work_throw:
  assumes "wf_state opts (t\<lparr>thrown := (e, c) # thrown t\<rparr>)"
  shows "work_left (next_threw opts c e t) < work_left (t\<lparr>thrown := (e, c) # thrown t\<rparr>)"
  using wfD(3)[OF assms]
  by (cases c; cases "iterator t" rule: iterator_next.cases)
     (auto simp: work_left_def runner_weight_def evops fields Let_def split: if_splits runner.splits)

lemma work_runner:
  assumes "wf_state opts s" "runner s = Resumed idx"
  shows "work_left (runner_resume opts idx s) < work_left s"
  using wfD(3)[OF assms(1)] assms(2)
  by (cases "iterator s" rule: iterator_next.cases)
     (auto simp: work_left_def runner_weight_def evops fields Let_def split: if_splits runner.splits)

lemma work_value:
  assumes "wf_state opts s" "map_of (tasks s) index = Some (AwaitValue val)"
  shows "work_left (value_resume v opts index val s) < work_left s"
proof -
  have m: "(index, AwaitValue val) \<in> set (tasks s)"
    using assms(2) by (rule map_of_SomeD)
  note d = sum_drop_key[OF wfD(4)[OF assms(1)] m, of task_weight]
  show ?thesis
  proof (cases val)
    case (Plain element)
    note r = sum_retag[OF wfD(4)[OF assms(1)] m, of task_weight
        "AwaitMapper (call_mapper opts element index)"]
    from d r Plain show ?thesis
      by (auto simp: work_left_def runner_weight_def evops fields Let_def
          split: if_splits runner.splits)
  next
    case (Rejecting e)
    from d Rejecting show ?thesis
      by (cases "iterator s" rule: iterator_next.cases)
         (auto simp: work_left_def runner_weight_def evops fields Let_def
            split: if_splits runner.splits)
  qed
qed

lemma work_mapper:
  assumes "wf_state opts s" "map_of (tasks s) index = Some (AwaitMapper res)"
  shows "work_left (mapper_resume opts index res s) < work_left s"
proof -
  have m: "(index, AwaitMapper res) \<in> set (tasks s)"
    using assms(2) by (rule map_of_SomeD)
  note d = sum_drop_key[OF wfD(4)[OF assms(1)] m, of task_weight]
  show ?thesis
    using d
    by (cases res; cases "iterator s" rule: iterator_next.cases)
       (auto simp: work_left_def runner_weight_def evops fields Let_def split: if_splits runner.splits)
qed

lemma work_step:
  assumes "wf_state opts s" "step v opts s ev = Some s'"
  shows "work_left s' < work_left s"
  using assms(2)
proof (cases rule: step_elims)
  case (Pull x c rest)
  define t where "t = s\<lparr>pulls := rest\<rparr>"
  have t: "t\<lparr>pulls := (x, c) # pulls t\<rparr> = s"
    unfolding t_def using Pull(2) by simp
  have "wf_state opts (t\<lparr>pulls := (x, c) # pulls t\<rparr>)"
    using assms(1) by (simp add: t)
  from work_pull[OF this, of v] show ?thesis
    unfolding Pull(3) t_def[symmetric] by (simp add: t)
next
  case (Thr e c rest)
  define t where "t = s\<lparr>thrown := rest\<rparr>"
  have t: "t\<lparr>thrown := (e, c) # thrown t\<rparr> = s"
    unfolding t_def using Thr(2) by simp
  have "wf_state opts (t\<lparr>thrown := (e, c) # thrown t\<rparr>)"
    using assms(1) by (simp add: t)
  from work_throw[OF this] show ?thesis
    unfolding Thr(3) t_def[symmetric] by (simp add: t)
next
  case (Runner idx)
  show ?thesis
    unfolding Runner(3) by (rule work_runner[OF assms(1) Runner(2)])
next
  case (Val index val)
  show ?thesis
    unfolding Val(3) by (rule work_value[OF assms(1) Val(2)])
next
  case (Map index res)
  show ?thesis
    unfolding Map(3) by (rule work_mapper[OF assms(1) Map(2)])
qed


lemma progress:
  assumes "\<not> quiescent s"
  shows "\<exists>ev s'. step v opts s ev = Some s'"
proof -
  consider (p) "pulls s \<noteq> []" | (th) "thrown s \<noteq> []" | (t) "tasks s \<noteq> []"
    | (r) idx where "runner s = Resumed idx"
    using assms by (auto simp: quiescent_def split: runner.splits)
  then show ?thesis
  proof cases
    case p
    then obtain x c rest where "pulls s = (x, c) # rest"
      by (cases "pulls s") auto
    then have "step v opts s EvPull \<noteq> None"
      by (simp add: step_def)
    then show ?thesis by blast
  next
    case th
    then obtain e c rest where "thrown s = (e, c) # rest"
      by (cases "thrown s") auto
    then have "step v opts s EvThrow \<noteq> None"
      by (simp add: step_def)
    then show ?thesis by blast
  next
    case t
    then obtain i u rest where ts: "tasks s = (i, u) # rest"
      by (cases "tasks s") auto
    show ?thesis
    proof (cases u)
      case (AwaitValue val)
      with ts have "step v opts s (EvValue i) \<noteq> None"
        by (simp add: step_def)
      then show ?thesis by blast
    next
      case (AwaitMapper res)
      with ts have "step v opts s (EvMapper i) \<noteq> None"
        by (simp add: step_def)
      then show ?thesis by blast
    qed
  next
    case r
    then have "step v opts s EvRunner \<noteq> None"
      by (simp add: step_def)
    then show ?thesis by blast
  qed
qed


lemma reaches_quiescence:
  assumes "wf_state opts s"
  shows "\<exists>evs s'. run v opts s evs = Some s' \<and> quiescent s'"
  using assms
proof (induction "work_left s" arbitrary: s rule: less_induct)
  case less
  show ?case
  proof (cases "quiescent s")
    case True
    then have "run v opts s [] = Some s \<and> quiescent s"
      by simp
    then show ?thesis by blast
  next
    case False
    then obtain ev s1 where s1: "step v opts s ev = Some s1"
      using progress[of s v opts] by blast
    from less.hyps[OF work_step[OF less.prems s1] wf_state_step[OF less.prems s1]]
    obtain evs s' where "run v opts s1 evs = Some s'" "quiescent s'"
      by blast
    with s1 have "run v opts s (ev # evs) = Some s' \<and> quiescent s'"
      by simp
    then show ?thesis by blast
  qed
qed

section \<open>After the call has settled\<close>

text \<open>
  C2, as stated, fails: the task of the second element was past its \<open>isResolved\<close>
  test when the first one rejected the call, and it writes \<open>result[1]\<close> afterwards;
  likewise a mapper that throws after the runner loop rejected the call is still pushed
  onto \<open>errors\<close>.
\<close>

theorem writes_after_termination_counterexample:
  "map_option (\<lambda>s. (isResolved s, settled s, result s))
     (run TS late_write (pMap TS late_write)
        [EvPull, EvValue 0, EvRunner, EvPull, EvValue 1, EvMapper 0]) =
     Some (True, Rejected (Raised (StringValue ''foo'')), []) \<and>
   map_option result
     (run TS late_write (pMap TS late_write)
        [EvPull, EvValue 0, EvRunner, EvPull, EvValue 1, EvMapper 0, EvMapper 1]) =
     Some [None, Some (Value 20)] \<and>
   map_option (\<lambda>s. (isResolved s, settled s, errors s))
     (run TS late_log (pMap TS late_log) [EvPull, EvValue 0, EvRunner, EvPull, EvThrow]) =
     Some (True, Rejected (Raised (StringValue ''source'')), []) \<and>
   map_option errors
     (run TS late_log (pMap TS late_log)
        [EvPull, EvValue 0, EvRunner, EvPull, EvThrow, EvMapper 0]) =
     Some [StringValue ''boom'']"
  by (simp add: late_write_def late_log_def eval_defs)

text \<open>
  C2, amended. Once the call has settled, whatever resumes next leaves the outcome as
  it is, pulls nothing from the source and (in the TypeScript file) starts no mapper;
  \<open>result\<close> changes only when a mapper that was already running returns, and \<open>errors\<close>
  only when \<open>stopOnError\<close> is off.
\<close>

theorem settled_call_stays_settled:
  assumes "validate TS opts = None" "run TS opts (pMap TS opts) evs = Some s"
    "isResolved s" "step TS opts s ev = Some s'"
  shows "settled s' = settled s \<and> iterator s' = iterator s \<and> invoked s' = invoked s \<and>
         length (pulls s') \<le> length (pulls s) \<and>
         (result s' \<noteq> result s \<longrightarrow>
            (\<exists>index val. ev = EvMapper index \<and>
               map_of (tasks s) index = Some (AwaitMapper (Inr val)))) \<and>
         (errors s' \<noteq> errors s \<longrightarrow> \<not> stopOnError opts)"
proof -
  have wf: "wf_state opts s"
    using wf_state_reachable[OF assms(1,2)] .
  have np: "settled s \<noteq> Pending"
    using wfD(1)[OF wf] assms(3) by simp
  show ?thesis
    using assms(4)
  proof (cases rule: step_elims)
    case (Pull x c rest)
    with assms(3) np show ?thesis
      by (cases x; cases c) (simp_all add: evops fields)
  next
    case (Thr e c rest)
    with assms(3) np show ?thesis
      by (cases c) (simp_all add: evops fields)
  next
    case (Runner idx)
    with assms(3) np show ?thesis
      by (simp add: evops fields)
  next
    case (Val index val)
    with assms(3) np show ?thesis
      by (cases val) (simp_all add: evops fields)
  next
    case (Map index res)
    with assms(3) np show ?thesis
      by (cases res) (simp_all add: evops fields Let_def)
  qed
qed

theorem settled_call_stays_settled_witness:
  "validate TS late_write = None \<and>
   map_option isResolved (run TS late_write (pMap TS late_write)
        [EvPull, EvValue 0, EvRunner, EvPull, EvValue 1, EvMapper 0]) = Some True \<and>
   map_option settled (run TS late_write (pMap TS late_write)
        [EvPull, EvValue 0, EvRunner, EvPull, EvValue 1, EvMapper 0, EvMapper 1]) =
     Some (Rejected (Raised (StringValue ''foo'')))"
proof -
  have v: "validate TS late_write = None"
    by (simp add: late_write_def eval_defs)
  obtain s where s: "run TS late_write (pMap TS late_write)
        [EvPull, EvValue 0, EvRunner, EvPull, EvValue 1, EvMapper 0] = Some s"
      "isResolved s" "settled s = Rejected (Raised (StringValue ''foo''))"
    by (simp add: late_write_def eval_defs)
  obtain s' where r: "run TS late_write (pMap TS late_write)
        ([EvPull, EvValue 0, EvRunner, EvPull, EvValue 1, EvMapper 0] @ [EvMapper 1]) = Some s'"
    by (simp add: late_write_def eval_defs)
  have s': "step TS late_write s (EvMapper 1) = Some s'"
    using r unfolding run_snoc s(1) by simp
  from settled_call_stays_settled[OF v s(1,2) s'] s(3) have "settled s' = Rejected (Raised (StringValue ''foo''))"
    by simp
  with r s v show ?thesis
    by simp
qed

section \<open>AggregateError\<close>

lemma deref_snoc_new: "deref (h @ [xs]) (length h) = xs"
  by (simp add: deref_def)

lemma deref_snoc_old: "r < length h \<Longrightarrow> deref (h @ [xs]) r = deref h r"
  by (simp add: deref_def nth_append)

lemma deref_mutate_other: "r \<noteq> r' \<Longrightarrow> deref (mutate r' f h) r = deref h r"
  by (simp add: mutate_def deref_def)

lemma length_mutate: "length (mutate r f h) = length h"
  by (simp add: mutate_def)

lemma message_normalise: "message (normalise e) = message_of e"
  by (cases e) simp_all

text \<open>
  C9. The constructor stores, in a new array, one \<open>Error\<close> per input in the order of
  the input, each with the message of its input (an \<open>Error\<close> is kept as it is). Every
  call of \<open>errors()\<close> returns a new array holding that list; whatever is done in place
  to the array a first call returned, a second call returns the same list again, in an
  array of its own, and \<open>_errors\<close> is unchanged.
\<close>

theorem aggregate_error_normalises_and_copies:
  assumes "AggregateError_new arg h inputs = (this, h0)"
    "errors_method this h0 = (r1, h1)"
    "errors_method this (mutate r1 f h1) = (r2, h2)"
  shows "deref h0 (errors_ref this) = map normalise (deref inputs arg) \<and>
         map message (deref h0 (errors_ref this)) = map message_of (deref inputs arg) \<and>
         deref h1 r1 = deref h0 (errors_ref this) \<and>
         r1 \<noteq> errors_ref this \<and>
         deref h2 r2 = deref h0 (errors_ref this) \<and>
         r2 \<noteq> r1 \<and> r2 \<noteq> errors_ref this \<and>
         deref h2 (errors_ref this) = deref h0 (errors_ref this)"
proof -
  from assms(1) have ref: "errors_ref this = length h"
    and h0: "h0 = h @ [map normalise (deref inputs arg)]"
    by (auto simp: AggregateError_new_def alloc_def)
  from assms(2) have r1: "r1 = length h0" and h1: "h1 = h0 @ [deref h0 (errors_ref this)]"
    by (auto simp: errors_method_def alloc_def)
  define h1' where "h1' = mutate r1 f h1"
  from assms(3) have r2: "r2 = length h1'" and h2: "h2 = h1' @ [deref h1' (errors_ref this)]"
    by (auto simp: errors_method_def alloc_def h1'_def)
  have stored: "deref h0 (errors_ref this) = map normalise (deref inputs arg)"
    by (simp add: ref h0 deref_snoc_new)
  have lt0: "errors_ref this < length h0"
    by (simp add: ref h0)
  have c1: "deref h1 r1 = deref h0 (errors_ref this)"
    by (simp add: r1 h1 deref_snoc_new)
  have ne1: "r1 \<noteq> errors_ref this"
    using lt0 r1 by simp
  have keep1: "deref h1 (errors_ref this) = deref h0 (errors_ref this)"
    using lt0 by (simp add: h1 deref_snoc_old)
  have keep1': "deref h1' (errors_ref this) = deref h0 (errors_ref this)"
    unfolding h1'_def using deref_mutate_other[of "errors_ref this" r1 f h1] ne1 keep1 by simp
  have len1': "length h1' = Suc (length h0)"
    by (simp add: h1'_def length_mutate h1)
  have c2: "deref h2 r2 = deref h0 (errors_ref this)"
    by (simp add: r2 h2 deref_snoc_new keep1')
  have ne2: "r2 \<noteq> r1" "r2 \<noteq> errors_ref this"
    using lt0 r1 r2 len1' by simp_all
  have keep2: "deref h2 (errors_ref this) = deref h0 (errors_ref this)"
    using lt0 len1' keep1' by (simp add: h2 deref_snoc_old)
  have msg: "map message (deref h0 (errors_ref this)) = map message_of (deref inputs arg)"
    by (simp add: stored message_normalise cong: map_cong)
  from stored msg c1 ne1 c2 ne2 keep2 show ?thesis
    by blast
qed

theorem aggregate_error_normalises_and_copies_witness:
  "AggregateError_new 0 []
     [[StringValue ''foo'', PlainObject [(''message'', ''bar''), (''code'', ''E1'')],
       ErrorInstance \<lparr>message = ''baz'', props = [], stack = Captured ''baz''\<rparr>]] =
     (\<lparr>errors_ref = 0\<rparr>,
      [[\<lparr>message = ''foo'', props = [], stack = Captured ''foo''\<rparr>,
        \<lparr>message = ''bar'', props = [(''code'', ''E1'')], stack = Captured ''bar''\<rparr>,
        \<lparr>message = ''baz'', props = [], stack = Captured ''baz''\<rparr>]]) \<and>
   fst (errors_method \<lparr>errors_ref = 0\<rparr>
     [[\<lparr>message = ''foo'', props = [], stack = Captured ''foo''\<rparr>,
       \<lparr>message = ''bar'', props = [(''code'', ''E1'')], stack = Captured ''bar''\<rparr>,
       \<lparr>message = ''baz'', props = [], stack = Captured ''baz''\<rparr>]]) = 1 \<and>
   deref (snd (errors_method \<lparr>errors_ref = 0\<rparr>
       (mutate 1 (\<lambda>xs. [])
         (snd (errors_method \<lparr>errors_ref = 0\<rparr>
           [[\<lparr>message = ''foo'', props = [], stack = Captured ''foo''\<rparr>,
             \<lparr>message = ''bar'', props = [(''code'', ''E1'')], stack = Captured ''bar''\<rparr>,
             \<lparr>message = ''baz'', props = [], stack = Captured ''baz''\<rparr>]])))))
     (fst (errors_method \<lparr>errors_ref = 0\<rparr>
       (mutate 1 (\<lambda>xs. [])
         (snd (errors_method \<lparr>errors_ref = 0\<rparr>
           [[\<lparr>message = ''foo'', props = [], stack = Captured ''foo''\<rparr>,
             \<lparr>message = ''bar'', props = [(''code'', ''E1'')], stack = Captured ''bar''\<rparr>,
             \<lparr>message = ''baz'', props = [], stack = Captured ''baz''\<rparr>]]))))) =
     [\<lparr>message = ''foo'', props = [], stack = Captured ''foo''\<rparr>,
      \<lparr>message = ''bar'', props = [(''code'', ''E1'')], stack = Captured ''bar''\<rparr>,
      \<lparr>message = ''baz'', props = [], stack = Captured ''baz''\<rparr>]"
proof -
  define inputs where "inputs = [[StringValue ''foo'', PlainObject [(''message'', ''bar''), (''code'', ''E1'')],
       ErrorInstance \<lparr>message = ''baz'', props = [], stack = Captured ''baz''\<rparr>]]"
  define h0 where "h0 = [[\<lparr>message = ''foo'', props = [], stack = Captured ''foo''\<rparr>,
        \<lparr>message = ''bar'', props = [(''code'', ''E1'')], stack = Captured ''bar''\<rparr>,
        \<lparr>message = ''baz'', props = [], stack = Captured ''baz''\<rparr>]]"
  have a: "AggregateError_new 0 [] inputs = (\<lparr>errors_ref = 0\<rparr>, h0)"
    by (simp add: inputs_def h0_def AggregateError_new_def alloc_def deref_def)
  obtain r1 h1 where b: "errors_method \<lparr>errors_ref = 0\<rparr> h0 = (r1, h1)"
    by (cases "errors_method \<lparr>errors_ref = 0\<rparr> h0")
  have r1: "r1 = 1"
    using b by (simp add: errors_method_def alloc_def h0_def)
  obtain r2 h2 where c: "errors_method \<lparr>errors_ref = 0\<rparr> (mutate r1 (\<lambda>xs. []) h1) = (r2, h2)"
    by (cases "errors_method \<lparr>errors_ref = 0\<rparr> (mutate r1 (\<lambda>xs. []) h1)")
  from aggregate_error_normalises_and_copies[OF a b c]
  have "deref h2 r2 = deref h0 0"
    by simp
  moreover have "deref h0 0 = [\<lparr>message = ''foo'', props = [], stack = Captured ''foo''\<rparr>,
        \<lparr>message = ''bar'', props = [(''code'', ''E1'')], stack = Captured ''bar''\<rparr>,
        \<lparr>message = ''baz'', props = [], stack = Captured ''baz''\<rparr>]"
    by (simp add: h0_def deref_def)
  ultimately show ?thesis
    using a b c r1 unfolding inputs_def h0_def
    by (metis fst_conv snd_conv)
qed


























section \<open>Stopping on the first error\<close>

























section \<open>A pull that fails inside the catch block\<close>




section \<open>The message of an AggregateError\<close>





















section \<open>A source that never throws\<close>


























































lemma failures_append:
  "failures v opts s (evs @ evs') =
     (case run v opts s evs of
        None \<Rightarrow> failures v opts s evs
      | Some s' \<Rightarrow> failures v opts s evs @ failures v opts s' evs')"
  by (induction evs arbitrary: s) (auto split: option.splits)




section \<open>Collecting the errors\<close>




text \<open>
  What the amendment leaves out. When the \<open>next()\<close> awaited in the \<open>try\<close> block
  throws, the \<open>catch\<close> block decrements \<open>resolvingCount\<close> a second time for the same
  task; here the count ends at \<open>-1\<close>, the shutdown test \<open>resolvingCount === 0\<close> never
  holds, and the run ends with the promise still pending.
\<close>

lemma second_decrement_leaves_the_promise_pending:
  "map_option (\<lambda>s. (quiescent s, settled s, resolvingCount s, errors s, result s))
     (run TS throw_after_success (pMap TS throw_after_success)
        [EvPull, EvValue 0, EvRunner, EvMapper 0, EvPull, EvThrow, EvPull]) =
     Some (True, Pending, - 1, [StringValue ''source''], [Some (Value 1)])"
  by (simp add: throw_after_success_def eval_defs)

section \<open>A run without failures\<close>

lemma length_array_set: "length (array_set xs i v) = max (length xs) (Suc i)"
  by (auto simp: array_set_def)

lemma nth_array_set_eq: "array_set xs i v ! i = Some v"
  by (auto simp: array_set_def nth_append)

lemma nth_array_set_neq: "j \<noteq> i \<Longrightarrow> j < length xs \<Longrightarrow> array_set xs i v ! j = xs ! j"
  by (auto simp: array_set_def nth_append)

lemma enumerate_nth: "enumerate 0 xs = map (\<lambda>i. (i, xs ! i)) [0..<length xs]"
  by (rule nth_equalityI) (simp_all add: nth_enumerate_eq)

lemma mapped_nth:
  "mapped opts xs = map (\<lambda>i. call_mapper opts (xs ! i) i) [0..<length xs]"
  by (simp add: mapped_def enumerate_nth)

lemma pure_indices:
  assumes "\<forall>i\<in>set is. map_option Inr (res ! i) = Some (f i)"
    "\<forall>i\<in>set is. (map_of sk i = Some pMapSkip) = (f i = Inr pMapSkip)"
  shows "map snd (filter (\<lambda>(i, v). map_of sk i \<noteq> Some pMapSkip) (map (\<lambda>i. (i, res ! i)) is)) =
         concat (map (\<lambda>i. keep (f i)) is)"
  using assms
proof (induction "is")
  case Nil
  then show ?case by simp
next
  case (Cons i "is")
  from Cons.prems(1) obtain r where r: "res ! i = Some r" "f i = Inr r"
    by (cases "res ! i") auto
  show ?case
  proof (cases r)
    case (Value a)
    with r Cons show ?thesis by simp
  next
    case pMapSkip
    with r Cons show ?thesis by simp
  qed
qed

lemma final_value:
  assumes "length res = length xs"
    "\<forall>i<length xs. map_option Inr (res ! i) = Some (call_mapper opts (xs ! i) i)"
    "\<forall>i. (map_of sk i = Some pMapSkip) =
           (i < length xs \<and> call_mapper opts (xs ! i) i = Inr pMapSkip)"
  shows "(if length sk = 0 then res else pureResult sk res) = expected opts xs"
proof -
  have a: "\<forall>i\<in>set [0..<length xs]. map_option Inr (res ! i) = Some (call_mapper opts (xs ! i) i)"
    using assms(2) by simp
  have b: "\<forall>i\<in>set [0..<length xs].
      (map_of sk i = Some pMapSkip) = (call_mapper opts (xs ! i) i = Inr pMapSkip)"
    using assms(3) by simp
  have p: "pureResult sk res = expected opts xs"
    unfolding pureResult_def expected_def mapped_nth enumerate_nth assms(1) map_map comp_def
    by (rule pure_indices[OF a b])
  have "pureResult [] res = res"
    by (simp add: pureResult_def enumerate_eq_zip)
  with p show ?thesis
    by (cases sk) auto
qed

lemma to_nextItem_not_Done: "to_nextItem p \<noteq> Done"
  by (cases p) simp_all

lemma next_view:
  "filter (\<lambda>x. x \<noteq> Done) (q @ [fst (iterator_next it)]) @ map to_nextItem (tl it) =
   filter (\<lambda>x. x \<noteq> Done) q @ map to_nextItem it"
  by (cases it rule: iterator_next.cases) simp_all

lemma tidyD:
  assumes "tidy xs opts s"
  shows "filter (\<lambda>x. x \<noteq> Done) (map fst (pulls s)) @ map to_nextItem (iterator s) = map (\<lambda>x. Item (Plain x)) (drop (currentIndex s) xs)"
    and "(\<forall>(i, u)\<in>set (tasks s). i < length xs \<and> (u = AwaitValue (Plain (xs ! i)) \<or> u = AwaitMapper (call_mapper opts (xs ! i) i)))"
    and "(\<forall>i. i < currentIndex s \<and> i < length xs \<and> i \<notin> fst ` set (tasks s) \<longrightarrow> i < length (result s) \<and> map_option Inr (result s ! i) = Some (call_mapper opts (xs ! i) i))"
    and "length (result s) \<le> length xs"
    and "(\<forall>i. (map_of (skippedIndexesMap s) i = Some pMapSkip) = (i < currentIndex s \<and> i < length xs \<and> i \<notin> fst ` set (tasks s) \<and> call_mapper opts (xs ! i) i = Inr pMapSkip))"
    and "caught s = []"
    and "(\<forall>ys. settled s = Resolved ys \<longrightarrow> ys = expected opts xs)"
    and "thrown s = []"
  using assms by (simp_all add: tidy_def)

lemma Item_head_drop:
  assumes "Item val # ys = map (\<lambda>x. Item (Plain x)) (drop n xs)"
  shows "n < length xs \<and> val = Plain (xs ! n) \<and> ys = map (\<lambda>x. Item (Plain x)) (drop (Suc n) xs)"
proof (cases "n < length xs")
  case True
  then have "drop n xs = xs ! n # drop (Suc n) xs"
    by (simp add: Cons_nth_drop_Suc)
  with assms True show ?thesis by simp
next
  case False
  with assms show ?thesis by simp
qed

lemma tidy_facts:
  assumes "tidy xs opts s" "wf_state opts s"
  shows "caught s = []" and "\<not> isRejected s" and "errors s = []"
    and "resolvingCount s = int (length (tasks s))"
    and "isResolved s \<Longrightarrow> tasks s = []"
    and "isResolved s \<Longrightarrow> isIterableDone s"
proof -
  show c: "caught s = []"
    using tidyD(6)[OF assms(1)] .
  show r: "\<not> isRejected s"
    using wfD(12)[OF assms(2)] c by simp
  show "errors s = []" and "resolvingCount s = int (length (tasks s))"
    using wfD(9)[OF assms(2)] c by simp_all
  show "isResolved s \<Longrightarrow> tasks s = []"
    using wfD(11)[OF assms(2)] r by simp
  show "isResolved s \<Longrightarrow> isIterableDone s"
    using wfD(3)[OF assms(2)] r by simp
qed

lemma tidy_head:
  assumes "tidy xs opts (t\<lparr>pulls := (x, c) # pulls t\<rparr>)"
    "wf_state opts (t\<lparr>pulls := (x, c) # pulls t\<rparr>)"
  shows "x = Done \<Longrightarrow> length xs \<le> currentIndex t \<and> iterator t = [] \<and>
           filter (\<lambda>x. x \<noteq> Done) (map fst (pulls t)) = []"
    and "x = Item val \<Longrightarrow> currentIndex t < length xs \<and> val = Plain (xs ! currentIndex t)"
    and "x = Item val \<Longrightarrow>
           filter (\<lambda>x. x \<noteq> Done) (map fst (pulls t)) @ map to_nextItem (iterator t) =
             map (\<lambda>x. Item (Plain x)) (drop (Suc (currentIndex t)) xs)"
    and "x \<noteq> Thrown e"
    and "isResolved t \<Longrightarrow> x = Done"
proof -
  have D0: "filter (\<lambda>x. x \<noteq> Done) (x # map fst (pulls t)) @ map to_nextItem (iterator t) =
             map (\<lambda>x. Item (Plain x)) (drop (currentIndex t) xs)"
    using tidyD(1)[OF assms(1)] by simp
  {
    assume d: "x = Done"
    have all: "\<forall>y\<in>set (map fst (pulls t)). y = Done"
      using wfD(8)[OF assms(2)] d by simp
    then have f: "filter (\<lambda>x. x \<noteq> Done) (map fst (pulls t)) = []"
      by (simp add: filter_empty_conv)
    have i: "iterator t = []"
      using wfD(6)[OF assms(2)] d by auto
    from D0 d f i have "drop (currentIndex t) xs = []"
      by simp
    with f i show "length xs \<le> currentIndex t \<and> iterator t = [] \<and>
           filter (\<lambda>x. x \<noteq> Done) (map fst (pulls t)) = []"
      by simp
  }
  {
    assume "x = Item val"
    with D0 have "Item val # (filter (\<lambda>x. x \<noteq> Done) (map fst (pulls t)) @ map to_nextItem (iterator t)) =
             map (\<lambda>x. Item (Plain x)) (drop (currentIndex t) xs)"
      by simp
    note h = Item_head_drop[OF this]
    from h show "currentIndex t < length xs \<and> val = Plain (xs ! currentIndex t)"
      by simp
    from h show "filter (\<lambda>x. x \<noteq> Done) (map fst (pulls t)) @ map to_nextItem (iterator t) =
             map (\<lambda>x. Item (Plain x)) (drop (Suc (currentIndex t)) xs)"
      by simp
  }
  show "x \<noteq> Thrown e"
  proof
    assume "x = Thrown e"
    with D0 have "Thrown e # (filter (\<lambda>x. x \<noteq> Done) (map fst (pulls t)) @ map to_nextItem (iterator t)) =
             map (\<lambda>x. Item (Plain x)) (drop (currentIndex t) xs)"
      by simp
    then show False
      by (cases "drop (currentIndex t) xs") auto
  qed
  {
    assume r: "isResolved t"
    have "isIterableDone t"
      using tidy_facts(6)[OF assms] r by simp
    then show "x = Done"
      using wfD(7)[OF assms(2)] by simp
  }
qed

lemma tidy_task:
  assumes "tidy xs opts s" "wf_state opts s"
    "\<forall>i<length xs. returns (call_mapper opts (xs ! i) i)"
  shows "map_of (tasks s) index = Some (AwaitValue val) \<Longrightarrow>
           index < length xs \<and> val = Plain (xs ! index) \<and> \<not> isResolved s"
    and "map_of (tasks s) index = Some (AwaitMapper res) \<Longrightarrow>
           index < length xs \<and> res = call_mapper opts (xs ! index) index \<and>
           (\<exists>val. res = Inr val) \<and> \<not> isResolved s"
proof -
  {
    assume "map_of (tasks s) index = Some (AwaitValue val)"
    then have m: "(index, AwaitValue val) \<in> set (tasks s)"
      by (rule map_of_SomeD)
    with tidyD(2)[OF assms(1)] have "index < length xs \<and> val = Plain (xs ! index)"
      by auto
    moreover from m tidy_facts(5)[OF assms(1,2)] have "\<not> isResolved s"
      by auto
    ultimately show "index < length xs \<and> val = Plain (xs ! index) \<and> \<not> isResolved s"
      by simp
  }
  {
    assume "map_of (tasks s) index = Some (AwaitMapper res)"
    then have m: "(index, AwaitMapper res) \<in> set (tasks s)"
      by (rule map_of_SomeD)
    with tidyD(2)[OF assms(1)] have a: "index < length xs \<and> res = call_mapper opts (xs ! index) index"
      by auto
    with assms(3) have "returns res"
      by simp
    then have "\<exists>val. res = Inr val"
      by (cases res) simp_all
    moreover from m tidy_facts(5)[OF assms(1,2)] have "\<not> isResolved s"
      by auto
    ultimately show "index < length xs \<and> res = call_mapper opts (xs ! index) index \<and>
           (\<exists>val. res = Inr val) \<and> \<not> isResolved s"
      using a by simp
  }
qed

lemma tidy_pull:
  assumes T: "tidy xs opts (t\<lparr>pulls := (x, c) # pulls t\<rparr>)"
    and W: "wf_state opts (t\<lparr>pulls := (x, c) # pulls t\<rparr>)"
    and ok: "\<forall>i<length xs. returns (call_mapper opts (xs ! i) i)"
  shows "tidy xs opts (next_resume v opts x c t)"
proof -
  let ?s = "next_resume v opts x c t"
  have f: "caught t = []" "\<not> isRejected t" "errors t = []"
    "resolvingCount t = int (length (tasks t))"
    using tidy_facts(1-4)[OF T W] by simp_all
  have p: "(settled t = Pending) = (\<not> isResolved t)"
    using wfD(1)[OF W] by simp
  have T1: "\<forall>(i, u)\<in>set (tasks t). i < length xs \<and>
      (u = AwaitValue (Plain (xs ! i)) \<or> u = AwaitMapper (call_mapper opts (xs ! i) i))"
    using tidyD(2)[OF T] by simp
  have T2: "\<forall>i. i < currentIndex t \<and> i < length xs \<and> i \<notin> fst ` set (tasks t) \<longrightarrow>
      i < length (result t) \<and> map_option Inr (result t ! i) = Some (call_mapper opts (xs ! i) i)"
    using tidyD(3)[OF T] by simp
  have T3: "length (result t) \<le> length xs"
    using tidyD(4)[OF T] by simp
  have T4: "\<forall>i. (map_of (skippedIndexesMap t) i = Some pMapSkip) =
      (i < currentIndex t \<and> i < length xs \<and> i \<notin> fst ` set (tasks t) \<and>
       call_mapper opts (xs ! i) i = Inr pMapSkip)"
    using tidyD(5)[OF T] by simp
  have T6: "\<forall>ys. settled t = Resolved ys \<longrightarrow> ys = expected opts xs"
    using tidyD(7)[OF T] by simp
  have T7: "thrown t = []"
    using tidyD(8)[OF T] by simp
  show ?thesis
  proof (cases x)
    case Done
    note h = tidy_head(1)[OF T W Done]
    have s: "pulls ?s = pulls t" "iterator ?s = iterator t" "currentIndex ?s = Suc (currentIndex t)"
      "tasks ?s = tasks t" "result ?s = result t" "skippedIndexesMap ?s = skippedIndexesMap t"
      "caught ?s = caught t" "thrown ?s = thrown t"
      using Done by (simp_all add: evops fields)
    have st: "settled ?s =
        (if resolvingCount t = 0 \<and> \<not> isResolved t
         then Resolved (if length (skippedIndexesMap t) = 0 then result t
                        else pureResult (skippedIndexesMap t) (result t))
         else settled t)"
      using Done f(3) p by (simp add: evops fields)
    have c0: "filter (\<lambda>x. x \<noteq> Done) (map fst (pulls ?s)) @ map to_nextItem (iterator ?s) =
        map (\<lambda>x. Item (Plain x)) (drop (currentIndex ?s) xs)"
      unfolding s using h by simp
    have c1: "\<forall>(i, u)\<in>set (tasks ?s). i < length xs \<and>
        (u = AwaitValue (Plain (xs ! i)) \<or> u = AwaitMapper (call_mapper opts (xs ! i) i))"
      unfolding s using T1 .
    have c2: "\<forall>i. i < currentIndex ?s \<and> i < length xs \<and> i \<notin> fst ` set (tasks ?s) \<longrightarrow>
        i < length (result ?s) \<and> map_option Inr (result ?s ! i) = Some (call_mapper opts (xs ! i) i)"
      unfolding s using T2 h by auto
    have c3: "length (result ?s) \<le> length xs"
      unfolding s using T3 .
    have c4: "\<forall>i. (map_of (skippedIndexesMap ?s) i = Some pMapSkip) =
        (i < currentIndex ?s \<and> i < length xs \<and> i \<notin> fst ` set (tasks ?s) \<and>
         call_mapper opts (xs ! i) i = Inr pMapSkip)"
      unfolding s using T4 h by auto
    have c5: "caught ?s = []"
      unfolding s using f(1) .
    have c6: "\<forall>ys. settled ?s = Resolved ys \<longrightarrow> ys = expected opts xs"
    proof (cases "resolvingCount t = 0 \<and> \<not> isResolved t")
      case True
      with f(4) have nt: "tasks t = []"
        by simp
      have all: "\<forall>i<length xs. i < length (result t) \<and>
          map_option Inr (result t ! i) = Some (call_mapper opts (xs ! i) i)"
        using T2 h nt by auto
      have len: "length (result t) = length xs"
      proof (cases "length xs")
        case 0
        with T3 show ?thesis by simp
      next
        case (Suc m)
        with all have "m < length (result t)" by simp
        with Suc T3 show ?thesis by simp
      qed
      have sk: "\<forall>i. (map_of (skippedIndexesMap t) i = Some pMapSkip) =
          (i < length xs \<and> call_mapper opts (xs ! i) i = Inr pMapSkip)"
      proof
        fix i
        have "i < length xs \<Longrightarrow> i < currentIndex t"
          using h by simp
        with spec[OF T4, of i] nt
        show "(map_of (skippedIndexesMap t) i = Some pMapSkip) =
          (i < length xs \<and> call_mapper opts (xs ! i) i = Inr pMapSkip)"
          by auto
      qed
      from final_value[OF len _ sk] all True show ?thesis
        unfolding st by simp
    next
      case False
      then have "settled ?s = settled t"
        unfolding st by (simp only: if_False)
      with T6 show ?thesis
        by simp
    qed
    have c7: "thrown ?s = []"
      unfolding s using T7 .
    from c0 c1 c2 c3 c4 c5 c6 c7 show ?thesis
      unfolding tidy_def by (intro conjI)
  next
    case (Item val)
    note h = tidy_head(2,3)[OF T W Item]
    have nr: "\<not> isResolved t"
      using tidy_head(5)[OF T W] Item by auto
    have s: "pulls ?s = pulls t" "iterator ?s = iterator t" "currentIndex ?s = Suc (currentIndex t)"
      "tasks ?s = tasks t @ [(currentIndex t, AwaitValue val)]" "result ?s = result t"
      "skippedIndexesMap ?s = skippedIndexesMap t" "caught ?s = caught t" "settled ?s = settled t"
      "thrown ?s = thrown t"
      using Item nr by (simp_all add: evops fields)
    have c0: "filter (\<lambda>x. x \<noteq> Done) (map fst (pulls ?s)) @ map to_nextItem (iterator ?s) =
        map (\<lambda>x. Item (Plain x)) (drop (currentIndex ?s) xs)"
      unfolding s using h(2) .
    have c1: "\<forall>(i, u)\<in>set (tasks ?s). i < length xs \<and>
        (u = AwaitValue (Plain (xs ! i)) \<or> u = AwaitMapper (call_mapper opts (xs ! i) i))"
      unfolding s using T1 h(1) by auto
    have c2: "\<forall>i. i < currentIndex ?s \<and> i < length xs \<and> i \<notin> fst ` set (tasks ?s) \<longrightarrow>
        i < length (result ?s) \<and> map_option Inr (result ?s ! i) = Some (call_mapper opts (xs ! i) i)"
      unfolding s using T2 by (auto simp: less_Suc_eq)
    have c3: "length (result ?s) \<le> length xs"
      unfolding s using T3 .
    have lt: "\<forall>i\<in>fst ` set (tasks t). i < currentIndex t"
      using wfD(5)[OF W] by simp
    have c4: "\<forall>i. (map_of (skippedIndexesMap ?s) i = Some pMapSkip) =
        (i < currentIndex ?s \<and> i < length xs \<and> i \<notin> fst ` set (tasks ?s) \<and>
         call_mapper opts (xs ! i) i = Inr pMapSkip)"
      unfolding s using T4 by (auto simp: less_Suc_eq)
    have c5: "caught ?s = []"
      unfolding s using f(1) .
    have c6: "\<forall>ys. settled ?s = Resolved ys \<longrightarrow> ys = expected opts xs"
      unfolding s using T6 .
    have c7: "thrown ?s = []"
      unfolding s using T7 .
    from c0 c1 c2 c3 c4 c5 c6 c7 show ?thesis
      unfolding tidy_def by (intro conjI)
  next
    case (Thrown e)
    with tidy_head(4)[OF T W, of e] show ?thesis
      by simp
  qed
qed

lemma alive_pull:
  assumes T: "tidy xs opts (t\<lparr>pulls := (x, c) # pulls t\<rparr>)"
    and W: "wf_state opts (t\<lparr>pulls := (x, c) # pulls t\<rparr>)"
  shows "alive (next_resume v opts x c t)"
proof (cases x)
  case Done
  have f: "errors t = []" "resolvingCount t = int (length (tasks t))"
    using tidy_facts(3,4)[OF T W] by simp_all
  have p: "(settled t = Pending) = (\<not> isResolved t)"
    using wfD(1)[OF W] by simp
  have "settled (next_resume v opts x c t) = Pending \<Longrightarrow> tasks t \<noteq> []"
    using Done f p by (auto simp: evops fields split: if_splits)
  then show ?thesis
    using Done by (simp add: alive_def evops fields)
next
  case (Item val)
  have "\<not> isResolved t"
    using tidy_head(5)[OF T W] Item by auto
  with Item show ?thesis
    by (simp add: alive_def evops fields)
next
  case (Thrown e)
  with tidy_head(4)[OF T W, of e] show ?thesis
    by simp
qed

lemma tidy_cong:
  assumes "tidy xs opts s"
    "pulls s' = pulls s" "iterator s' = iterator s" "currentIndex s' = currentIndex s"
    "tasks s' = tasks s" "result s' = result s" "skippedIndexesMap s' = skippedIndexesMap s"
    "caught s' = caught s" "settled s' = settled s" "thrown s' = thrown s"
  shows "tidy xs opts s'"
  using assms(1) unfolding tidy_def assms(2-) .

lemma tidy_next_call:
  assumes "tidy xs opts s"
  shows "tidy xs opts (next_call c s)"
proof (cases "isResolved s")
  case True
  then show ?thesis
    by (intro tidy_cong[OF assms]) (simp_all add: fields)
next
  case False
  let ?s = "next_call c s"
  have s: "pulls ?s = pulls s @ [(fst (iterator_next (iterator s)), c)]"
    "iterator ?s = tl (iterator s)" "currentIndex ?s = currentIndex s"
    "tasks ?s = tasks s" "result ?s = result s" "skippedIndexesMap ?s = skippedIndexesMap s"
    "caught ?s = caught s" "settled ?s = settled s" "thrown ?s = thrown s"
    using False by (simp_all add: fields)
  have v: "filter (\<lambda>x. x \<noteq> Done) (map fst (pulls ?s)) @ map to_nextItem (iterator ?s) =
      filter (\<lambda>x. x \<noteq> Done) (map fst (pulls s)) @ map to_nextItem (iterator s)"
    unfolding s using next_view[of "map fst (pulls s)" "iterator s"] by simp
  show ?thesis
    using assms unfolding tidy_def v unfolding s .
qed

lemma alive_next_call:
  assumes "\<not> isResolved s"
  shows "alive (next_call c s)"
  using assms by (simp add: alive_def fields)

lemma tidy_runner:
  assumes "tidy xs opts s"
  shows "tidy xs opts (runner_resume opts idx s)"
proof -
  have a: "tidy xs opts (s\<lparr>runner := r\<rparr>)" for r
    by (intro tidy_cong[OF assms]) simp_all
  show ?thesis
    unfolding runner_resume_def runner_iter_def
    using a tidy_next_call[OF a] by simp
qed

lemma alive_runner:
  assumes "alive s" "wf_state opts s"
  shows "alive (runner_resume opts idx s)"
proof (cases "isResolved s")
  case True
  then have "settled (runner_resume opts idx s) \<noteq> Pending"
    using wfD(1)[OF assms(2)] by (simp add: evops fields)
  then show ?thesis
    by (simp add: alive_def)
next
  case False
  show ?thesis
  proof (cases "(isIterableDone s \<or> isRejected s) \<or> \<not> below (Suc idx) (concurrency opts)")
    case True
    with assms(1) show ?thesis
      by (auto simp: alive_def evops fields)
  next
    case False
    with \<open>\<not> isResolved s\<close> show ?thesis
      by (simp add: evops alive_next_call)
  qed
qed

lemma tidy_value:
  assumes T: "tidy xs opts s" and W: "wf_state opts s"
    and ok: "\<forall>i<length xs. returns (call_mapper opts (xs ! i) i)"
    and m: "map_of (tasks s) index = Some (AwaitValue val)"
  shows "tidy xs opts (value_resume v opts index val s)"
proof -
  note h = tidy_task(1)[OF T W ok m]
  let ?s = "value_resume v opts index val s"
  have s: "pulls ?s = pulls s" "iterator ?s = iterator s" "currentIndex ?s = currentIndex s"
    "tasks ?s = map (\<lambda>(i, t). if i = index
         then (i, AwaitMapper (call_mapper opts (xs ! index) index)) else (i, t)) (tasks s)"
    "result ?s = result s" "skippedIndexesMap ?s = skippedIndexesMap s"
    "caught ?s = caught s" "settled ?s = settled s" "thrown ?s = thrown s"
    using h by (simp_all add: evops fields)
  have keys: "fst ` set (tasks ?s) = fst ` set (tasks s)"
    unfolding s using fst_retag[of index _ "tasks s"] by (metis set_map)
  have c1: "\<forall>(i, u)\<in>set (tasks ?s). i < length xs \<and>
        (u = AwaitValue (Plain (xs ! i)) \<or> u = AwaitMapper (call_mapper opts (xs ! i) i))"
    unfolding s using tidyD(2)[OF T] h(1) by (fastforce split: if_splits)
  show ?thesis
    using tidyD[OF T] c1 unfolding tidy_def keys unfolding s(1-3,5-) by (intro conjI)
qed

lemma alive_value:
  assumes T: "tidy xs opts s" and W: "wf_state opts s"
    and ok: "\<forall>i<length xs. returns (call_mapper opts (xs ! i) i)"
    and m: "map_of (tasks s) index = Some (AwaitValue val)"
  shows "alive (value_resume v opts index val s)"
proof -
  note h = tidy_task(1)[OF T W ok m]
  have "tasks s \<noteq> []"
    using m by auto
  with h show ?thesis
    by (simp add: alive_def evops fields)
qed

lemma tidy_mapper:
  assumes T: "tidy xs opts s" and W: "wf_state opts s"
    and ok: "\<forall>i<length xs. returns (call_mapper opts (xs ! i) i)"
    and m: "map_of (tasks s) index = Some (AwaitMapper res)"
  shows "tidy xs opts (mapper_resume opts index res s)"
proof -
  from tidy_task(2)[OF T W ok m] obtain val where h: "index < length xs"
    "res = call_mapper opts (xs ! index) index" "res = Inr val" "\<not> isResolved s"
    by blast
  have mem: "(index, AwaitMapper res) \<in> set (tasks s)"
    using m by (rule map_of_SomeD)
  define s2 where "s2 = s\<lparr>tasks := filter (\<lambda>(i, t). i \<noteq> index) (tasks s),
      skippedIndexesMap := (if val = pMapSkip then AList.update index val (skippedIndexesMap s)
                            else skippedIndexesMap s),
      result := array_set (result s) index val,
      resolvingCount := resolvingCount s - 1\<rparr>"
  have eq: "mapper_resume opts index res s = next_call FromTry s2"
    unfolding mapper_resume_def remove_task_def s2_def h(3) by (simp add: Let_def)
  have keys: "fst ` set (tasks s2) = fst ` set (tasks s) - {index}"
    unfolding s2_def by force
  have lt: "index < currentIndex s"
    using wfD(5)[OF W] mem by force
  have c0: "filter (\<lambda>x. x \<noteq> Done) (map fst (pulls s2)) @ map to_nextItem (iterator s2) =
      map (\<lambda>x. Item (Plain x)) (drop (currentIndex s2) xs)"
    using tidyD(1)[OF T] by (simp add: s2_def)
  have c1: "\<forall>(i, u)\<in>set (tasks s2). i < length xs \<and>
        (u = AwaitValue (Plain (xs ! i)) \<or> u = AwaitMapper (call_mapper opts (xs ! i) i))"
    using tidyD(2)[OF T] by (auto simp: s2_def)
  have c2: "\<forall>i. i < currentIndex s2 \<and> i < length xs \<and> i \<notin> fst ` set (tasks s2) \<longrightarrow>
        i < length (result s2) \<and> map_option Inr (result s2 ! i) = Some (call_mapper opts (xs ! i) i)"
  proof (intro allI impI)
    fix i
    assume a: "i < currentIndex s2 \<and> i < length xs \<and> i \<notin> fst ` set (tasks s2)"
    show "i < length (result s2) \<and> map_option Inr (result s2 ! i) = Some (call_mapper opts (xs ! i) i)"
    proof (cases "i = index")
      case True
      then show ?thesis
        using h(2,3) by (simp add: s2_def length_array_set nth_array_set_eq)
    next
      case False
      with a keys have "i < currentIndex s \<and> i < length xs \<and> i \<notin> fst ` set (tasks s)"
        by (simp add: s2_def)
      with spec[OF tidyD(3)[OF T], of i] have "i < length (result s) \<and>
          map_option Inr (result s ! i) = Some (call_mapper opts (xs ! i) i)"
        by blast
      with False show ?thesis
        by (auto simp: s2_def length_array_set nth_array_set_neq)
    qed
  qed
  have c3: "length (result s2) \<le> length xs"
    using tidyD(4)[OF T] h(1) by (simp add: s2_def length_array_set)
  have c4: "\<forall>i. (map_of (skippedIndexesMap s2) i = Some pMapSkip) =
        (i < currentIndex s2 \<and> i < length xs \<and> i \<notin> fst ` set (tasks s2) \<and>
         call_mapper opts (xs ! i) i = Inr pMapSkip)"
  proof
    fix i
    note old = spec[OF tidyD(5)[OF T], of i]
    have inold: "index \<in> fst ` set (tasks s)"
      using mem by force
    show "(map_of (skippedIndexesMap s2) i = Some pMapSkip) =
        (i < currentIndex s2 \<and> i < length xs \<and> i \<notin> fst ` set (tasks s2) \<and>
         call_mapper opts (xs ! i) i = Inr pMapSkip)"
    proof (cases "i = index")
      case True
      with old inold have "map_of (skippedIndexesMap s) index \<noteq> Some pMapSkip"
        by simp
      moreover have "call_mapper opts (xs ! index) index = Inr val"
        using h(2,3) by simp
      ultimately show ?thesis
        using True keys lt h(1) by (auto simp: s2_def update_conv')
    next
      case False
      with old keys show ?thesis
        by (simp add: s2_def update_conv')
    qed
  qed
  have c5: "caught s2 = []"
    using tidyD(6)[OF T] by (simp add: s2_def)
  have c6: "\<forall>ys. settled s2 = Resolved ys \<longrightarrow> ys = expected opts xs"
    using tidyD(7)[OF T] by (simp add: s2_def)
  have c7: "thrown s2 = []"
    using tidyD(8)[OF T] by (simp add: s2_def)
  from c0 c1 c2 c3 c4 c5 c6 c7 have "tidy xs opts s2"
    unfolding tidy_def by (intro conjI)
  then show ?thesis
    unfolding eq by (rule tidy_next_call)
qed

lemma alive_mapper:
  assumes T: "tidy xs opts s" and W: "wf_state opts s"
    and ok: "\<forall>i<length xs. returns (call_mapper opts (xs ! i) i)"
    and m: "map_of (tasks s) index = Some (AwaitMapper res)"
  shows "alive (mapper_resume opts index res s)"
proof -
  from tidy_task(2)[OF T W ok m] obtain val where h: "res = Inr val" "\<not> isResolved s"
    by blast
  then show ?thesis
    by (simp add: alive_def evops fields Let_def)
qed

lemma tidy_step:
  assumes "tidy xs opts s" "wf_state opts s"
    "\<forall>i<length xs. returns (call_mapper opts (xs ! i) i)" "step v opts s ev = Some s'"
  shows "tidy xs opts s'"
  using assms(4)
proof (cases rule: step_elims)
  case (Pull x c rest)
  define t where "t = s\<lparr>pulls := rest\<rparr>"
  have t: "t\<lparr>pulls := (x, c) # pulls t\<rparr> = s"
    unfolding t_def using Pull(2) by simp
  have h1: "tidy xs opts (t\<lparr>pulls := (x, c) # pulls t\<rparr>)"
    using assms(1) by (simp add: t)
  have h2: "wf_state opts (t\<lparr>pulls := (x, c) # pulls t\<rparr>)"
    using assms(2) by (simp add: t)
  show ?thesis
    unfolding Pull(3) t_def[symmetric] by (rule tidy_pull[OF h1 h2 assms(3)])
next
  case (Thr e c rest)
  with tidyD(8)[OF assms(1)] show ?thesis
    by simp
next
  case (Runner idx)
  show ?thesis
    unfolding Runner(3) by (rule tidy_runner[OF assms(1)])
next
  case (Val index val)
  show ?thesis
    unfolding Val(3) by (rule tidy_value[OF assms(1-3) Val(2)])
next
  case (Map index res)
  show ?thesis
    unfolding Map(3) by (rule tidy_mapper[OF assms(1-3) Map(2)])
qed

lemma alive_step:
  assumes "alive s" "tidy xs opts s" "wf_state opts s"
    "\<forall>i<length xs. returns (call_mapper opts (xs ! i) i)" "step v opts s ev = Some s'"
  shows "alive s'"
  using assms(5)
proof (cases rule: step_elims)
  case (Pull x c rest)
  define t where "t = s\<lparr>pulls := rest\<rparr>"
  have t: "t\<lparr>pulls := (x, c) # pulls t\<rparr> = s"
    unfolding t_def using Pull(2) by simp
  have h1: "tidy xs opts (t\<lparr>pulls := (x, c) # pulls t\<rparr>)"
    using assms(2) by (simp add: t)
  have h2: "wf_state opts (t\<lparr>pulls := (x, c) # pulls t\<rparr>)"
    using assms(3) by (simp add: t)
  show ?thesis
    unfolding Pull(3) t_def[symmetric] by (rule alive_pull[OF h1 h2])
next
  case (Thr e c rest)
  with tidyD(8)[OF assms(2)] show ?thesis
    by simp
next
  case (Runner idx)
  show ?thesis
    unfolding Runner(3) by (rule alive_runner[OF assms(1,3)])
next
  case (Val index val)
  show ?thesis
    unfolding Val(3) by (rule alive_value[OF assms(2-4) Val(2)])
next
  case (Map index res)
  show ?thesis
    unfolding Map(3) by (rule alive_mapper[OF assms(2-4) Map(2)])
qed

lemma tidy_pMap:
  assumes "validate v opts = None" "get_iterator v (iterable opts) = yields xs"
  shows "tidy xs opts (pMap v opts)"
proof -
  define s0 :: "('a, 'b) state" where "s0 = (initial (yields xs))\<lparr>runner := Awaiting 0\<rparr>"
  have "tidy xs opts s0"
    by (simp add: tidy_def s0_def initial_def yields_def comp_def)
  then have "tidy xs opts (next_call (FromRunner 0) s0)"
    by (rule tidy_next_call)
  then show ?thesis
    using assms validate_below_0[OF assms(1)] by (simp add: pMap_def runner_iter_def s0_def)
qed

lemma alive_pMap:
  assumes "validate v opts = None"
  shows "alive (pMap v opts)"
  using assms validate_below_0[OF assms]
  by (simp add: pMap_def runner_iter_def alive_next_call initial_def)

lemma tidy_run:
  assumes "tidy xs opts s" "alive s" "wf_state opts s"
    "\<forall>i<length xs. returns (call_mapper opts (xs ! i) i)" "run v opts s evs = Some s'"
  shows "tidy xs opts s' \<and> alive s'"
  using assms(1,2,3,5)
proof (induction evs arbitrary: s)
  case Nil
  then show ?case by simp
next
  case (Cons ev evs)
  from Cons.prems(4) obtain s1 where s1: "step v opts s ev = Some s1" "run v opts s1 evs = Some s'"
    by (auto split: option.splits)
  show ?case
    using Cons.IH[OF tidy_step[OF Cons.prems(1,3) assms(4) s1(1)]
        alive_step[OF Cons.prems(2,1,3) assms(4) s1(1)]
        wf_state_step[OF Cons.prems(3) s1(1)] s1(2)] .
qed

lemma success_path:
  assumes "validate v opts = None" "get_iterator v (iterable opts) = yields xs"
    "\<forall>i<length xs. returns (call_mapper opts (xs ! i) i)"
    "run v opts (pMap v opts) evs = Some s"
  shows "settled s = Pending \<or> settled s = Resolved (expected opts xs)"
    and "quiescent s \<Longrightarrow> settled s = Resolved (expected opts xs)"
proof -
  have wf0: "wf_state opts (pMap v opts)"
    using wf_state_pMap[OF assms(1)] .
  have wf: "wf_state opts s"
    using wf_state_run[OF wf0 assms(4)] .
  have ta: "tidy xs opts s \<and> alive s"
    using tidy_run[OF tidy_pMap[OF assms(1,2)] alive_pMap[OF assms(1)] wf0 assms(3,4)] .
  show a: "settled s = Pending \<or> settled s = Resolved (expected opts xs)"
  proof (cases "settled s")
    case Pending
    then show ?thesis by simp
  next
    case (Resolved ys)
    with tidyD(7)[OF conjunct1[OF ta]] show ?thesis by simp
  next
    case (Rejected r)
    then have "isRejected s"
      using wfD(2)[OF wf] by simp
    with tidy_facts(2)[OF conjunct1[OF ta] wf] show ?thesis by simp
  qed
  assume "quiescent s"
  then have "settled s \<noteq> Pending"
    using conjunct2[OF ta] by (auto simp: alive_def quiescent_def)
  with a show "settled s = Resolved (expected opts xs)"
    by simp
qed

lemma success_reached:
  assumes "validate v opts = None" "get_iterator v (iterable opts) = yields xs"
    "\<forall>i<length xs. returns (call_mapper opts (xs ! i) i)"
    "run v opts (pMap v opts) evs = Some s"
  shows "\<exists>evs' s'. run v opts s evs' = Some s' \<and> settled s' = Resolved (expected opts xs)"
proof -
  have wf: "wf_state opts s"
    using wf_state_reachable[OF assms(1,4)] .
  from reaches_quiescence[OF wf] obtain evs' s' where r: "run v opts s evs' = Some s'" "quiescent s'"
    by blast
  have "run v opts (pMap v opts) (evs @ evs') = Some s'"
    using assms(4) r(1) by (simp add: run_append)
  from success_path(2)[OF assms(1-3) this r(2)] r(1) show ?thesis
    by blast
qed


lemma validate_TS_JS: "validate TS opts = None \<Longrightarrow> validate JS opts = None"
  by (cases "iterable opts")
     (auto simp: validate_def validate_ts_def validate_js_def assertConcurrency_def
           split: option.splits if_splits)

lemma resume_pull_at_0: "resume_pull_at v opts 0 s = step v opts s EvPull"
  by (cases "pulls s") (auto simp: resume_pull_at_def step_def)

lemma run_unordered_Inr: "run_unordered v opts s (map Inr evs) = run v opts s evs"
  by (induction evs arbitrary: s) (auto split: option.splits)

section \<open>The result of a run without failures\<close>




section \<open>Nothing to keep\<close>




section \<open>The two files\<close>

text \<open>
  C10, as stated, fails for an object that is iterable in both ways: the TypeScript
  file iterates it through \<open>Symbol.asyncIterator\<close>, the JavaScript file through
  \<open>Symbol.iterator\<close>, and where the two give different elements the two calls resolve
  with different sequences, without any failure.
\<close>

theorem two_protocols_two_results_counterexample:
  "validate TS both_protocols = None \<and> validate JS both_protocols = None \<and>
   map_option (\<lambda>s. (settled s, caught s))
     (run TS both_protocols (pMap TS both_protocols) [EvPull, EvValue 0, EvMapper 0, EvPull]) =
     Some (Resolved [Some (Value 2)], []) \<and>
   map_option (\<lambda>s. (settled s, caught s))
     (run JS both_protocols (pMap JS both_protocols) [EvPull, EvValue 0, EvMapper 0, EvPull]) =
     Some (Resolved [Some (Value 1)], [])"
  by (simp add: both_protocols_def eval_defs)

text \<open>
  C10, amended to a source both files read the same elements \<open>xs\<close> from (it has one of
  the two protocols, or both give the same) and that answers its pulls in order.
  Arguments that pass the checks of the TypeScript file pass those of the JavaScript
  file; and then, the mapper returning for every element: whenever both calls have settled they
  have the same outcome; both are resolved with the mapper's results in source order
  without the \<open>pMapSkip\<close> ones once nothing is left to resume; and both runs can be
  continued until they are.
\<close>

theorem both_files_resolve_alike:
  assumes "validate TS opts = None"
    "get_iterator TS (iterable opts) = yields xs" "get_iterator JS (iterable opts) = yields xs"
    "\<forall>i<length xs. returns (call_mapper opts (xs ! i) i)"
    "run TS opts (pMap TS opts) evs = Some s" "run JS opts (pMap JS opts) evs' = Some s'"
  shows "validate JS opts = None \<and>
         (settled s \<noteq> Pending \<and> settled s' \<noteq> Pending \<longrightarrow> settled s = settled s') \<and>
         (quiescent s \<and> quiescent s' \<longrightarrow>
            settled s = Resolved (expected opts xs) \<and> settled s' = Resolved (expected opts xs)) \<and>
         (\<exists>e1 s1 e2 s2. run TS opts s e1 = Some s1 \<and> run JS opts s' e2 = Some s2 \<and>
            settled s1 = Resolved (expected opts xs) \<and> settled s2 = settled s1)"
proof -
  have vj: "validate JS opts = None"
    using validate_TS_JS[OF assms(1)] .
  note ts = success_path[OF assms(1,2,4,5)]
  note js = success_path[OF vj assms(3,4,6)]
  have a: "settled s \<noteq> Pending \<and> settled s' \<noteq> Pending \<longrightarrow> settled s = settled s'"
    using ts(1) js(1) by auto
  have b: "quiescent s \<and> quiescent s' \<longrightarrow>
            settled s = Resolved (expected opts xs) \<and> settled s' = Resolved (expected opts xs)"
    using ts(2) js(2) by blast
  from success_reached[OF assms(1,2,4,5)] obtain e1 s1
    where r1: "run TS opts s e1 = Some s1" "settled s1 = Resolved (expected opts xs)"
    by blast
  from success_reached[OF vj assms(3,4,6)] obtain e2 s2
    where r2: "run JS opts s' e2 = Some s2" "settled s2 = Resolved (expected opts xs)"
    by blast
  have c: "\<exists>e1 s1 e2 s2. run TS opts s e1 = Some s1 \<and> run JS opts s' e2 = Some s2 \<and>
            settled s1 = Resolved (expected opts xs) \<and> settled s2 = settled s1"
    using r1 r2 by (intro exI[of _ e1] exI[of _ s1] exI[of _ e2] exI[of _ s2]) simp
  from vj a b c show ?thesis
    by (intro conjI)
qed

theorem both_files_resolve_alike_witness:
  "validate TS three_items = None \<and>
   get_iterator TS (iterable three_items) = yields [1, 2, 3] \<and>
   get_iterator JS (iterable three_items) = yields [1, 2, 3] \<and>
   list_all (\<lambda>i. returns (call_mapper three_items ([1, 2, 3] ! i) i)) [0, 1, 2] \<and>
   map_option (\<lambda>s. (quiescent s, settled s))
     (run TS three_items (pMap TS three_items)
        [EvPull, EvValue 0, EvRunner, EvPull, EvValue 1, EvMapper 1, EvPull, EvMapper 0, EvPull,
         EvRunner, EvValue 2, EvMapper 2, EvPull]) =
     Some (True, Resolved [Some (Value 10), Some (Value 30)]) \<and>
   map_option (\<lambda>s. (quiescent s, settled s))
     (run JS three_items (pMap JS three_items)
        [EvPull, EvRunner, EvPull, EvRunner, EvValue 1, EvValue 0, EvMapper 0, EvPull, EvValue 2,
         EvMapper 2, EvMapper 1, EvPull, EvPull]) =
     Some (True, Resolved [Some (Value 10), Some (Value 30)])"
proof -
  let ?e1 = "[EvPull, EvValue 0, EvRunner, EvPull, EvValue 1, EvMapper 1, EvPull, EvMapper 0,
         EvPull, EvRunner, EvValue 2, EvMapper 2, EvPull]"
  let ?e2 = "[EvPull, EvRunner, EvPull, EvRunner, EvValue 1, EvValue 0, EvMapper 0, EvPull,
         EvValue 2, EvMapper 2, EvMapper 1, EvPull, EvPull]"
  have v: "validate TS three_items = None"
    by (simp add: three_items_def eval_defs)
  have y1: "get_iterator TS (iterable three_items) = yields [1, 2, 3]"
    by (simp add: three_items_def yields_def)
  have y2: "get_iterator JS (iterable three_items) = yields [1, 2, 3]"
    by (simp add: three_items_def yields_def)
  have ok: "\<forall>i<length [1, 2, 3 :: nat]. returns (call_mapper three_items ([1, 2, 3] ! i) i)"
    by (simp add: three_items_def call_mapper_def less_Suc_eq eval_nat_numeral)
  have la: "list_all (\<lambda>i. returns (call_mapper three_items ([1, 2, 3] ! i) i)) [0, 1, 2]"
    by (simp add: three_items_def call_mapper_def)
  have e: "expected three_items [1, 2, 3] = [Some (Value 10), Some (Value 30)]"
    by (simp add: three_items_def expected_def mapped_def call_mapper_def)
  obtain s where s: "run TS three_items (pMap TS three_items) ?e1 = Some s" "quiescent s"
    by (simp add: three_items_def eval_defs)
  obtain s' where s': "run JS three_items (pMap JS three_items) ?e2 = Some s'" "quiescent s'"
    by (simp add: three_items_def eval_defs)
  from both_files_resolve_alike[OF v y1 y2 ok s(1) s'(1)] s(2) s'(2)
  have q: "settled s = Resolved (expected three_items [1, 2, 3])"
      "settled s' = Resolved (expected three_items [1, 2, 3])"
    by blast+
  have r1: "map_option (\<lambda>s. (quiescent s, settled s))
     (run TS three_items (pMap TS three_items) ?e1) =
     Some (True, Resolved [Some (Value 10), Some (Value 30)])"
    unfolding s(1) using s(2) q(1) e by simp
  have r2: "map_option (\<lambda>s. (quiescent s, settled s))
     (run JS three_items (pMap JS three_items) ?e2) =
     Some (True, Resolved [Some (Value 10), Some (Value 30)])"
    unfolding s'(1) using s'(2) q(2) e by simp
  from v y1 y2 la r1 r2 show ?thesis
    by (intro conjI)
qed

end
